theory Spec2Isabelle
  imports Main "HOL-Library.AList" "HOL-Library.Product_Lexorder" "HOL-Library.Multiset"
begin

section \<open>Values received from the RPC endpoint\<close>

text \<open>
  Both scripts (\<^verbatim>\<open>tx_search.py\<close> and \<^verbatim>\<open>txpool_probe.py\<close>) read the decoded JSON body
  of an RPC response.  A JSON object is a Python \<^verbatim>\<open>dict\<close>: insertion ordered, with string
  keys; it is modelled by an association list whose order is the iteration order of
  \<^verbatim>\<open>.items()\<close>.  Numbers are integers (the pool methods return counts and hex strings).
  Strings are lists of 8-bit characters; the model covers ASCII text.
\<close>

datatype json =
    JNull
  | JBool bool
  | JInt int
  | JStr string
  | JArr "json list"
  | JObj "(string \<times> json) list"

text \<open>The exceptions the modelled code can raise.\<close>

datatype exn = RpcError | AttributeError | ValueError | OverflowError

text \<open>Python truthiness, as used by \<^verbatim>\<open>x or {}\<close>.\<close>

fun truthy :: "json \<Rightarrow> bool" where
  "truthy JNull = False"
| "truthy (JBool b) = b"
| "truthy (JInt n) = (n \<noteq> 0)"
| "truthy (JStr s) = (s \<noteq> [])"
| "truthy (JArr xs) = (xs \<noteq> [])"
| "truthy (JObj kvs) = (kvs \<noteq> [])"

text \<open>\<^verbatim>\<open>x or {}\<close>\<close>

definition or_empty :: "json \<Rightarrow> json" where
  "or_empty j = (if truthy j then j else JObj [])"

text \<open>\<^verbatim>\<open>d.get(k)\<close> on a dict: the value, or \<^verbatim>\<open>None\<close>.\<close>

definition dict_get :: "(string \<times> json) list \<Rightarrow> string \<Rightarrow> json" where
  "dict_get d k = (case map_of d k of None \<Rightarrow> JNull | Some v \<Rightarrow> v)"

text \<open>\<^verbatim>\<open>d.get(k, default)\<close>\<close>

definition dict_get_default :: "(string \<times> json) list \<Rightarrow> string \<Rightarrow> json \<Rightarrow> json" where
  "dict_get_default d k dflt = (case map_of d k of None \<Rightarrow> dflt | Some v \<Rightarrow> v)"

section \<open>Python string and integer primitives\<close>

text \<open>The ASCII characters for which \<^verbatim>\<open>str.isspace\<close> holds.\<close>

definition is_space :: "char \<Rightarrow> bool" where
  "is_space c = (c \<in> set [CHR 0x09, CHR 0x0A, CHR 0x0B, CHR 0x0C, CHR 0x0D,
                            CHR 0x1C, CHR 0x1D, CHR 0x1E, CHR 0x1F, CHR 0x20])"

text \<open>Removes the characters that satisfy \<open>P\<close> from both ends.\<close>

definition strip_with :: "(char \<Rightarrow> bool) \<Rightarrow> string \<Rightarrow> string" where
  "strip_with P s = rev (dropWhile P (rev (dropWhile P s)))"

text \<open>\<^verbatim>\<open>s.strip()\<close>\<close>

definition strip :: "string \<Rightarrow> string" where
  "strip s = strip_with is_space s"

text \<open>
  The whitespace that \<^verbatim>\<open>int()\<close> allows around a literal: of the ASCII characters, the
  separators 0x1C to 0x1F are whitespace for \<^verbatim>\<open>strip\<close> and \<^verbatim>\<open>\s\<close> but not here.
\<close>

definition is_int_space :: "char \<Rightarrow> bool" where
  "is_int_space c = (c \<in> set [CHR 0x09, CHR 0x0A, CHR 0x0B, CHR 0x0C, CHR 0x0D, CHR 0x20])"

definition lower_char :: "char \<Rightarrow> char" where
  "lower_char c =
     (case map_of (zip ''ABCDEFGHIJKLMNOPQRSTUVWXYZ'' ''abcdefghijklmnopqrstuvwxyz'') c of
        Some d \<Rightarrow> d
      | None \<Rightarrow> c)"

text \<open>\<^verbatim>\<open>s.lower()\<close>\<close>

definition lower :: "string \<Rightarrow> string" where
  "lower s = map lower_char s"

text \<open>\<^verbatim>\<open>s.startswith(p)\<close>\<close>

definition startswith :: "string \<Rightarrow> string \<Rightarrow> bool" where
  "startswith p s = (take (length p) s = p)"

text \<open>The value of a character as a digit (any base up to 36), as \<^verbatim>\<open>int()\<close> reads it.\<close>

definition digit_val :: "char \<Rightarrow> nat option" where
  "digit_val c =
     map_of (zip ''0123456789abcdefghijklmnopqrstuvwxyz'' [0..<36]) (lower_char c)"

definition digit_of :: "nat \<Rightarrow> char \<Rightarrow> nat option" where
  "digit_of b c = (case digit_val c of
                     None \<Rightarrow> None
                   | Some v \<Rightarrow> if v < b then Some v else None)"

text \<open>
  The digits of an integer literal after its first digit: single underscores may
  separate digits, a doubled or trailing underscore is an error.
\<close>

fun digits_acc :: "nat \<Rightarrow> nat \<Rightarrow> string \<Rightarrow> nat option" where
  "digits_acc b acc [] = Some acc"
| "digits_acc b acc [c] =
     (case digit_of b c of None \<Rightarrow> None | Some v \<Rightarrow> Some (acc * b + v))"
| "digits_acc b acc (c # d # ds) =
     (if c = CHR ''_'' then
        (case digit_of b d of
           None \<Rightarrow> None
         | Some v \<Rightarrow> digits_acc b (acc * b + v) ds)
      else
        (case digit_of b c of
           None \<Rightarrow> None
         | Some v \<Rightarrow> digits_acc b (acc * b + v) (d # ds)))"

definition parse_digits :: "nat \<Rightarrow> string \<Rightarrow> nat option" where
  "parse_digits b s =
     (case s of
        [] \<Rightarrow> None
      | c # cs \<Rightarrow> (case digit_of b c of
                     None \<Rightarrow> None
                   | Some v \<Rightarrow> digits_acc b v cs))"

text \<open>The optional sign of an integer literal: (negative, rest).\<close>

definition split_sign :: "string \<Rightarrow> bool \<times> string" where
  "split_sign s =
     (case s of
        [] \<Rightarrow> (False, s)
      | c # cs \<Rightarrow> if c = CHR ''+'' then (False, cs)
                  else if c = CHR ''-'' then (True, cs)
                  else (False, s))"

text \<open>
  For base 0 the literal's prefix selects the base: (base, a decimal literal that
  starts with 0 and must therefore be zero).
\<close>

definition detect_base :: "string \<Rightarrow> nat \<times> bool" where
  "detect_base s =
     (case s of
        c # d # _ \<Rightarrow>
          if c \<noteq> CHR ''0'' then (10, False)
          else if lower_char d = CHR ''x'' then (16, False)
          else if lower_char d = CHR ''o'' then (8, False)
          else if lower_char d = CHR ''b'' then (2, False)
          else (10, True)
      | [c] \<Rightarrow> (10, c = CHR ''0'')
      | [] \<Rightarrow> (10, False))"

definition prefix_letter :: "nat \<Rightarrow> char" where
  "prefix_letter b = (if b = 16 then CHR ''x'' else if b = 8 then CHR ''o''
                      else if b = 2 then CHR ''b'' else CHR ''0'')"

text \<open>Skips the base prefix of the literal, and the one underscore allowed after it.\<close>

definition skip_prefix :: "nat \<Rightarrow> string \<Rightarrow> string" where
  "skip_prefix b s =
     (case s of
        c # d # rest \<Rightarrow>
          if c = CHR ''0'' \<and> b \<in> {2, 8, 16} \<and> lower_char d = prefix_letter b then
            (case rest of
               u # rest' \<Rightarrow> if u = CHR ''_'' then rest' else rest
             | [] \<Rightarrow> rest)
          else s
      | _ \<Rightarrow> s)"

text \<open>
  \<^verbatim>\<open>int(s, base)\<close> for a string \<^verbatim>\<open>s\<close> and base 0, 10 or 16 (\<^verbatim>\<open>int(s)\<close> is base 10);
  \<open>None\<close> is \<^verbatim>\<open>ValueError\<close>.
\<close>

definition py_int :: "nat \<Rightarrow> string \<Rightarrow> int option" where
  "py_int base s0 =
     (let (neg, s1) = split_sign (strip_with is_int_space s0);
          (b, zero_only) = (if base = 0 then detect_base s1 else (base, False));
          s2 = skip_prefix b s1
      in case parse_digits b s2 of
           None \<Rightarrow> None
         | Some n \<Rightarrow> if zero_only \<and> n \<noteq> 0 then None
                     else Some (if neg then - int n else int n))"

text \<open>
  \<^verbatim>\<open>hex_to_int(value)\<close> of \<^verbatim>\<open>txpool_probe.py\<close>.  A bool is a Python int; the text of a
  list or dict is never an integer literal.
\<close>

fun hex_to_int :: "json \<Rightarrow> exn + int" where
  "hex_to_int JNull = Inr 0"
| "hex_to_int (JInt n) = Inr n"
| "hex_to_int (JBool b) = Inr (if b then 1 else 0)"
| "hex_to_int (JStr s) =
     (case (if startswith ''0x'' s then py_int 16 s else py_int 10 s) of
        None \<Rightarrow> Inl ValueError
      | Some n \<Rightarrow> Inr n)"
| "hex_to_int (JArr xs) = Inl ValueError"
| "hex_to_int (JObj kvs) = Inl ValueError"

section \<open>Pausing between rounds\<close>

text \<open>
  Both scripts pause after a round with
  \<^verbatim>\<open>time.sleep((sleep_min + random.randint(0, sleep_jitter)) / 1000.0)\<close>.  The pause changes
  no variable of the program, but it can raise, and no \<^verbatim>\<open>try\<close> encloses it.

  \<open>sleep_ms_min\<close> and \<open>sleep_ms_jitter\<close> are the two settings (\<^verbatim>\<open>--sleep\<close> and
  \<^verbatim>\<open>--jitter\<close>, or \<^verbatim>\<open>SLEEP_MS_MIN\<close> and \<^verbatim>\<open>SLEEP_MS_JITTER\<close>).  \<open>draw k\<close> is the
  randomness used by the pause with index \<open>k\<close>.  \<open>longest_sleep_ms\<close> is the longest
  delay that \<^verbatim>\<open>time.sleep\<close> accepts on the platform; a longer one raises
  (\<^verbatim>\<open>OverflowError\<close>, on some platforms \<^verbatim>\<open>OSError\<close>).
\<close>

record pacing =
  sleep_ms_min :: int
  sleep_ms_jitter :: int
  longest_sleep_ms :: int
  draw :: "int \<Rightarrow> int"

text \<open>
  \<^verbatim>\<open>random.randint(a, b)\<close>: an empty range raises; otherwise the result is in the range,
  chosen by the randomness \<open>d\<close>.
\<close>

definition randint :: "int \<Rightarrow> int \<Rightarrow> int \<Rightarrow> exn + int" where
  "randint a b d = (if b < a then Inl ValueError else Inr (a + d mod (b - a + 1)))"

text \<open>
  \<^verbatim>\<open>sleep_briefly\<close>: the exception it raises, if any.  \<^verbatim>\<open>time.sleep\<close> refuses a negative
  delay with \<^verbatim>\<open>ValueError\<close>.
\<close>

definition sleep_briefly :: "pacing \<Rightarrow> int \<Rightarrow> exn option" where
  "sleep_briefly p k =
     (case randint 0 (sleep_ms_jitter p) (draw p k) of
        Inl e \<Rightarrow> Some e
      | Inr r \<Rightarrow>
          if sleep_ms_min p + r < 0 then Some ValueError
          else if longest_sleep_ms p < sleep_ms_min p + r then Some OverflowError
          else None)"

section \<open>Search mode: \<^verbatim>\<open>tx_search.py\<close>\<close>

subsection \<open>Normalizer and argument parsing\<close>

text \<open>\<^verbatim>\<open>normalize_tx_hash\<close>: strip, add the 0x prefix when missing, lowercase.\<close>

definition normalize_tx_hash :: "string \<Rightarrow> string" where
  "normalize_tx_hash tx_hash =
     (let t = strip tx_hash in lower (if startswith ''0x'' t then t else ''0x'' @ t))"

definition normalize_address :: "string \<Rightarrow> string" where
  "normalize_address addr =
     (let t = strip addr in lower (if startswith ''0x'' t then t else ''0x'' @ t))"

text \<open>\<^verbatim>\<open>s.split(",")\<close>\<close>

fun split_comma :: "string \<Rightarrow> string list" where
  "split_comma [] = [[]]"
| "split_comma (c # cs) =
     (if c = CHR '','' then [] # split_comma cs
      else (case split_comma cs of
              [] \<Rightarrow> [[c]]
            | w # ws \<Rightarrow> (c # w) # ws))"

text \<open>
  \<^verbatim>\<open>parse_tx_hashes\<close>: the comma separated pieces, stripped, the empty ones dropped, each
  normalized.  The result is a list: a hash given twice stays twice.
\<close>

definition parse_tx_hashes :: "string \<Rightarrow> string list" where
  "parse_tx_hashes tx_hashes_str =
     (if tx_hashes_str = [] then []
      else map normalize_tx_hash (filter (\<lambda>t. t \<noteq> []) (map strip (split_comma tx_hashes_str))))"

definition parse_tx_addresses :: "string \<Rightarrow> string list" where
  "parse_tx_addresses tx_addrs_str =
     (if tx_addrs_str = [] then []
      else map normalize_address (filter (\<lambda>t. t \<noteq> []) (map strip (split_comma tx_addrs_str))))"

subsection \<open>Match records and the accumulated state\<close>

datatype tx_status = Pending | Queued

text \<open>The dict \<^verbatim>\<open>tx_info\<close> built for every observed pool entry.\<close>

record tx_info =
  status :: tx_status
  address :: string
  nonce :: int
  data :: "(string \<times> json) list"
  found_in_hit :: int

text \<open>
  The local variables of \<^verbatim>\<open>search_transactions\<close> that the loop updates.  The two dicts
  are association lists in insertion order, updated with \<^const>\<open>AList.update\<close> (an
  existing key keeps its place, a new key goes to the end), so that \<^verbatim>\<open>len(d)\<close> is the
  length of the list.
\<close>

record search_state =
  found_transactions :: "(string \<times> tx_info) list"
  found_by_address :: "(string \<times> tx_info list) list"
  total_hits :: nat
  successful_hits :: nat
  failed_hits :: nat
  pending_searches :: nat
  queued_searches :: nat

definition init_search_state :: search_state where
  "init_search_state =
     \<lparr>found_transactions = [], found_by_address = [], total_hits = 0,
      successful_hits = 0, failed_hits = 0, pending_searches = 0, queued_searches = 0\<rparr>"

subsection \<open>One hit: scanning a snapshot\<close>

text \<open>
  \<^verbatim>\<open>int(nonce_str, 0) if str(nonce_str).startswith("0x") else int(nonce_str)\<close>
\<close>

definition search_nonce :: "string \<Rightarrow> exn + int" where
  "search_nonce nonce_str =
     (case (if startswith ''0x'' nonce_str then py_int 0 nonce_str else py_int 10 nonce_str) of
        None \<Rightarrow> Inl ValueError
      | Some n \<Rightarrow> Inr n)"

text \<open>
  \<^verbatim>\<open>normalize_tx_hash(tx_data["hash"])\<close>: a value that is not a string has no
  \<^verbatim>\<open>strip\<close>.
\<close>

definition entry_hash :: "json \<Rightarrow> exn + string" where
  "entry_hash j = (case j of JStr s \<Rightarrow> Inr (normalize_tx_hash s) | _ \<Rightarrow> Inl AttributeError)"

text \<open>
  The two \<^verbatim>\<open>if\<close> statements that store a match: by hash the record is assigned
  (\<^verbatim>\<open>found_transactions[tx_hash] = tx_info\<close>), by address it is appended.
\<close>

definition record_match ::
  "string list \<Rightarrow> string list \<Rightarrow> string \<Rightarrow> tx_info \<Rightarrow> search_state \<Rightarrow> search_state" where
  "record_match target_hashes target_addresses tx_hash info st =
     (let st1 = (if tx_hash \<in> set target_hashes
                 then st\<lparr>found_transactions := AList.update tx_hash info (found_transactions st)\<rparr>
                 else st)
      in if address info \<in> set target_addresses
         then st1\<lparr>found_by_address :=
                    AList.update (address info)
                      ((case map_of (found_by_address st1) (address info) of
                          None \<Rightarrow> []
                        | Some txs \<Rightarrow> txs) @ [info])
                      (found_by_address st1)\<rparr>
         else st1)"

text \<open>
  The body of the innermost loop for one \<^verbatim>\<open>(nonce_str, tx_data)\<close> item.  The hash and
  the nonce are read before anything is stored, so an exception leaves the state as it
  was.
\<close>

definition scan_entry ::
  "string list \<Rightarrow> string list \<Rightarrow> tx_status \<Rightarrow> int \<Rightarrow> string \<Rightarrow> string \<times> json
     \<Rightarrow> search_state \<Rightarrow> exn + search_state" where
  "scan_entry target_hashes target_addresses stat hit_num addr_normalized item st =
     (case snd item of
        JObj tx_data \<Rightarrow>
          (if map_of tx_data ''hash'' = None then Inr st
           else case entry_hash (dict_get tx_data ''hash'') of
                  Inl e \<Rightarrow> Inl e
                | Inr tx_hash \<Rightarrow>
                    (case search_nonce (fst item) of
                       Inl e \<Rightarrow> Inl e
                     | Inr n \<Rightarrow>
                         Inr (record_match target_hashes target_addresses tx_hash
                                \<lparr>status = stat, address = addr_normalized, nonce = n,
                                 data = tx_data, found_in_hit = hit_num\<rparr> st)))
      | _ \<Rightarrow> Inr st)"

text \<open>
  A \<^verbatim>\<open>for\<close> loop whose body may raise: the loop stops at the first exception, and what
  earlier iterations stored stays stored.  The result is the state reached and the
  exception, if any.
\<close>

fun loop_raising :: "('a \<Rightarrow> 's \<Rightarrow> exn + 's) \<Rightarrow> 'a list \<Rightarrow> 's \<Rightarrow> 's \<times> exn option" where
  "loop_raising body [] st = (st, None)"
| "loop_raising body (x # xs) st =
     (case body x st of
        Inl e \<Rightarrow> (st, Some e)
      | Inr st' \<Rightarrow> loop_raising body xs st')"

text \<open>The same for a body that is itself a loop.\<close>

fun loop_nested :: "('a \<Rightarrow> 's \<Rightarrow> 's \<times> exn option) \<Rightarrow> 'a list \<Rightarrow> 's \<Rightarrow> 's \<times> exn option" where
  "loop_nested body [] st = (st, None)"
| "loop_nested body (x # xs) st =
     (case body x st of
        (st', Some e) \<Rightarrow> (st', Some e)
      | (st', None) \<Rightarrow> loop_nested body xs st')"

text \<open>The loop over one sender's \<^verbatim>\<open>nonce_map\<close> (skipped when it is not a dict).\<close>

definition scan_sender ::
  "string list \<Rightarrow> string list \<Rightarrow> tx_status \<Rightarrow> int \<Rightarrow> string \<times> json
     \<Rightarrow> search_state \<Rightarrow> search_state \<times> exn option" where
  "scan_sender target_hashes target_addresses stat hit_num sender st =
     (case snd sender of
        JObj nonce_map \<Rightarrow>
          loop_raising
            (scan_entry target_hashes target_addresses stat hit_num
               (normalize_address (fst sender)))
            nonce_map st
      | _ \<Rightarrow> (st, None))"

text \<open>
  One of the two sections of a snapshot, \<^verbatim>\<open>insp.get(key) or {}\<close>: when it is a dict its
  counter is incremented and its senders are scanned.
\<close>

definition scan_section ::
  "string list \<Rightarrow> string list \<Rightarrow> tx_status \<Rightarrow> int \<Rightarrow> (string \<times> json) list
     \<Rightarrow> search_state \<Rightarrow> search_state \<times> exn option" where
  "scan_section target_hashes target_addresses stat hit_num insp st =
     (case or_empty (dict_get insp (case stat of Pending \<Rightarrow> ''pending'' | Queued \<Rightarrow> ''queued'')) of
        JObj section_map \<Rightarrow>
          loop_nested (scan_sender target_hashes target_addresses stat hit_num) section_map
            (case stat of
               Pending \<Rightarrow> st\<lparr>pending_searches := pending_searches st + 1\<rparr>
             | Queued \<Rightarrow> st\<lparr>queued_searches := queued_searches st + 1\<rparr>)
      | _ \<Rightarrow> (st, None))"

text \<open>The statements of the \<^verbatim>\<open>try\<close> block after a successful call: pending, then queued.\<close>

definition ingest_search ::
  "string list \<Rightarrow> string list \<Rightarrow> int \<Rightarrow> (string \<times> json) list
     \<Rightarrow> search_state \<Rightarrow> search_state \<times> exn option" where
  "ingest_search target_hashes target_addresses hit_num insp st =
     (case scan_section target_hashes target_addresses Pending hit_num insp st of
        (st1, Some e) \<Rightarrow> (st1, Some e)
      | (st1, None) \<Rightarrow> scan_section target_hashes target_addresses Queued hit_num insp st1)"

text \<open>
  The \<^verbatim>\<open>try\<close>/\<^verbatim>\<open>except\<close> of one round.  \<open>resp\<close> is what \<^verbatim>\<open>rpc.call("txpool_inspect")\<close>
  does in this round: it raises or returns the result.  \<^verbatim>\<open>insp.get\<close> needs a dict.  Any
  exception is caught and counts the hit as failed.
\<close>

definition try_hit ::
  "string list \<Rightarrow> string list \<Rightarrow> int \<Rightarrow> exn + json \<Rightarrow> search_state \<Rightarrow> search_state" where
  "try_hit target_hashes target_addresses hit_num resp st =
     (case resp of
        Inl e \<Rightarrow> st\<lparr>failed_hits := failed_hits st + 1\<rparr>
      | Inr r \<Rightarrow>
          (let st1 = st\<lparr>successful_hits := successful_hits st + 1\<rparr> in
           case or_empty r of
             JObj insp \<Rightarrow>
               (case ingest_search target_hashes target_addresses hit_num insp st1 of
                  (st2, Some e) \<Rightarrow> st2\<lparr>failed_hits := failed_hits st2 + 1\<rparr>
                | (st2, None) \<Rightarrow> st2)
           | _ \<Rightarrow> st1\<lparr>failed_hits := failed_hits st1 + 1\<rparr>))"

subsection \<open>The scheduler\<close>

text \<open>
  The early-exit test after each round:
  \<^verbatim>\<open>target_hashes and len(found_transactions) == len(target_hashes)\<close>.
\<close>

definition all_found :: "string list \<Rightarrow> search_state \<Rightarrow> bool" where
  "all_found target_hashes st =
     (target_hashes \<noteq> [] \<and> length (found_transactions st) = length target_hashes)"

text \<open>
  The loop \<^verbatim>\<open>for hit_num in range(1, args.hits + 1)\<close>, over the hit numbers still to
  run.  \<open>rpc\<close> gives the outcome of the call made in each round (one call per round).
  After a round that does not end the search the program pauses; an exception of the
  pause ends the run.  The result is the state reached and that exception, if any.
\<close>

fun search_loop ::
  "(int \<Rightarrow> exn + json) \<Rightarrow> pacing \<Rightarrow> string list \<Rightarrow> string list \<Rightarrow> int list
     \<Rightarrow> search_state \<Rightarrow> search_state \<times> exn option" where
  "search_loop rpc p target_hashes target_addresses [] st = (st, None)"
| "search_loop rpc p target_hashes target_addresses (hit_num # rest) st =
     (let st1 = try_hit target_hashes target_addresses hit_num (rpc hit_num)
                  (st\<lparr>total_hits := total_hits st + 1\<rparr>)
      in if all_found target_hashes st1 then (st1, None)
         else (case sleep_briefly p hit_num of
                 Some e \<Rightarrow> (st1, Some e)
               | None \<Rightarrow> search_loop rpc p target_hashes target_addresses rest st1))"

text \<open>\<^verbatim>\<open>range(a, b)\<close>\<close>

definition py_range :: "int \<Rightarrow> int \<Rightarrow> int list" where
  "py_range a b = [a..b - 1]"

text \<open>
  \<^verbatim>\<open>search_transactions(args)\<close> up to the report: the usage error when nothing is
  searched for (\<^verbatim>\<open>sys.exit(1)\<close>), otherwise the outcome of the loop.  The arguments are
  \<^verbatim>\<open>--hashes\<close>, \<^verbatim>\<open>--addresses\<close> and \<^verbatim>\<open>--hits\<close>; \<^verbatim>\<open>--sleep\<close> and \<^verbatim>\<open>--jitter\<close> are in \<open>p\<close>.
\<close>

datatype usage_error = NoTargets

definition search_transactions ::
  "(int \<Rightarrow> exn + json) \<Rightarrow> pacing \<Rightarrow> string \<Rightarrow> string \<Rightarrow> int
     \<Rightarrow> usage_error + search_state \<times> exn option" where
  "search_transactions rpc p hashes addresses hits =
     (let target_hashes = parse_tx_hashes hashes;
          target_addresses = parse_tx_addresses addresses
      in if target_hashes = [] \<and> target_addresses = [] then Inl NoTargets
         else Inr (search_loop rpc p target_hashes target_addresses (py_range 1 (hits + 1))
                     init_search_state))"

section \<open>Classify mode: \<^verbatim>\<open>txpool_probe.py\<close>\<close>

subsection \<open>The RPC endpoint\<close>

text \<open>
  The four methods the script calls.  What a call does (raise, or return the result)
  is decided by the endpoint; \<open>env n req\<close> is the outcome of request \<open>req\<close> when \<open>n\<close>
  calls were made before it.  The log of calls made is threaded through the program.
\<close>

datatype rpc_request =
    TxpoolStatus
  | TxpoolInspect
  | GetBlockPending
  | GetTransactionCount string

type_synonym rpc_env = "nat \<Rightarrow> rpc_request \<Rightarrow> exn + json"

definition rpc_call ::
  "rpc_env \<Rightarrow> rpc_request \<Rightarrow> rpc_request list \<Rightarrow> (exn + json) \<times> rpc_request list" where
  "rpc_call env req log = (env (length log) req, log @ [req])"

text \<open>\<^verbatim>\<open>get_pending_basefee_wei\<close>: any failure gives 0.\<close>

definition get_pending_basefee_wei :: "rpc_env \<Rightarrow> rpc_request list \<Rightarrow> int \<times> rpc_request list" where
  "get_pending_basefee_wei env log =
     (case rpc_call env GetBlockPending log of
        (Inl e, log') \<Rightarrow> (0, log')
      | (Inr blk, log') \<Rightarrow>
          (case blk of
             JObj d \<Rightarrow>
               (case hex_to_int (dict_get_default d ''baseFeePerGas'' (JStr ''0x0'')) of
                  Inl e \<Rightarrow> (0, log')
                | Inr n \<Rightarrow> (n, log'))
           | _ \<Rightarrow> (0, log')))"

subsection \<open>Status sampling\<close>

text \<open>
  A loop \<^verbatim>\<open>for _ in range(n)\<close> whose body may end the run with an exception: the state
  reached, and the exception, if any.
\<close>

fun rounds :: "nat \<Rightarrow> ('s \<Rightarrow> 's \<times> exn option) \<Rightarrow> 's \<Rightarrow> 's \<times> exn option" where
  "rounds 0 body s = (s, None)"
| "rounds (Suc n) body s =
     (case body s of
        (s', Some e) \<Rightarrow> (s', Some e)
      | (s', None) \<Rightarrow> rounds n body s')"

text \<open>
  The \<^verbatim>\<open>try\<close> statement of the first loop; the state is
  \<^verbatim>\<open>(max_pending, max_queued)\<close> and the call log.  Both counts are read before either
  maximum is updated, and any exception is passed over.
\<close>

definition poll_status ::
  "rpc_env \<Rightarrow> int \<times> int \<times> rpc_request list \<Rightarrow> int \<times> int \<times> rpc_request list" where
  "poll_status env s =
     (case s of (max_pending, max_queued, log) \<Rightarrow>
        (case rpc_call env TxpoolStatus log of
           (Inl e, log') \<Rightarrow> (max_pending, max_queued, log')
         | (Inr r, log') \<Rightarrow>
             (case or_empty r of
                JObj st \<Rightarrow>
                  (case hex_to_int (dict_get_default st ''pending'' (JInt 0)) of
                     Inl e \<Rightarrow> (max_pending, max_queued, log')
                   | Inr p \<Rightarrow>
                       (case hex_to_int (dict_get_default st ''queued'' (JInt 0)) of
                          Inl e \<Rightarrow> (max_pending, max_queued, log')
                        | Inr q \<Rightarrow>
                            (if p > max_pending then p else max_pending,
                             if q > max_queued then q else max_queued, log')))
              | _ \<Rightarrow> (max_pending, max_queued, log'))))"

text \<open>
  One iteration of the first loop: the \<^verbatim>\<open>try\<close> statement, then the pause.  The pauses
  of this script are indexed by the number of calls made so far.
\<close>

definition status_round ::
  "rpc_env \<Rightarrow> pacing \<Rightarrow> int \<times> int \<times> rpc_request list
     \<Rightarrow> (int \<times> int \<times> rpc_request list) \<times> exn option" where
  "status_round env p s =
     (let s' = poll_status env s
      in (s', sleep_briefly p (int (length (snd (snd s'))))))"

text \<open>\<^verbatim>\<open>for _ in range(max(1, SAMPLES))\<close>\<close>

definition sample_status ::
  "rpc_env \<Rightarrow> pacing \<Rightarrow> int \<Rightarrow> rpc_request list
     \<Rightarrow> (int \<times> int \<times> rpc_request list) \<times> exn option" where
  "sample_status env p samples log =
     rounds (nat (max 1 samples)) (status_round env p) (0, 0, log)"

subsection \<open>Collating the inspect snapshots\<close>

text \<open>
  The nonce of a snapshot key: \<^verbatim>\<open>int(nonce_str, 0)\<close>, on failure
  \<^verbatim>\<open>int(s, 16) if s.startswith("0x") else int(s)\<close>, on failure the entry is skipped
  (\<open>None\<close>).
\<close>

definition probe_nonce :: "string \<Rightarrow> int option" where
  "probe_nonce nonce_str =
     (case py_int 0 nonce_str of
        Some n \<Rightarrow> Some n
      | None \<Rightarrow> if startswith ''0x'' nonce_str then py_int 16 nonce_str
                else py_int 10 nonce_str)"

text \<open>Decimal text of an integer, and \<^verbatim>\<open>str(x)\<close> of a decoded JSON value.\<close>

function show_nat :: "nat \<Rightarrow> string" where
  "show_nat n =
     (if n < 10 then [''0123456789'' ! n]
      else show_nat (n div 10) @ [''0123456789'' ! (n mod 10)])"
  by pat_completeness auto
termination
  by (relation "measure id") auto

definition show_int :: "int \<Rightarrow> string" where
  "show_int i = (if i < 0 then CHR ''-'' # show_nat (nat (- i)) else show_nat (nat i))"

fun join_comma :: "string list \<Rightarrow> string" where
  "join_comma [] = []"
| "join_comma [x] = x"
| "join_comma (x # y # ys) = x @ '', '' @ join_comma (y # ys)"

text \<open>
  The \<^verbatim>\<open>repr\<close> of a string, for text without quotes, backslashes and control
  characters (no escapes are produced).
\<close>

definition repr_str :: "string \<Rightarrow> string" where
  "repr_str s = [CHR 0x27] @ s @ [CHR 0x27]"

fun py_repr :: "json \<Rightarrow> string" where
  "py_repr JNull = ''None''"
| "py_repr (JBool b) = (if b then ''True'' else ''False'')"
| "py_repr (JInt n) = show_int n"
| "py_repr (JStr s) = repr_str s"
| "py_repr (JArr xs) = ''['' @ join_comma (map py_repr xs) @ '']''"
| "py_repr (JObj kvs) =
     ''{'' @ join_comma (map (\<lambda>kv. repr_str (fst kv) @ '': '' @ py_repr (snd kv)) kvs) @ ''}''"

definition py_str :: "json \<Rightarrow> string" where
  "py_str j = (case j of JStr s \<Rightarrow> s | _ \<Rightarrow> py_repr j)"

text \<open>
  The accumulators of the second loop: \<^verbatim>\<open>pending_nonces\<close> (a dict of sets) and the
  list \<^verbatim>\<open>queued_entries\<close> of \<^verbatim>\<open>(from, nonce, summary)\<close>.
\<close>

record agg_state =
  pending_nonces :: "string \<rightharpoonup> int set"
  queued_entries :: "(string \<times> int \<times> string) list"

definition init_agg_state :: agg_state where
  "init_agg_state = \<lparr>pending_nonces = Map.empty, queued_entries = []\<rparr>"

text \<open>\<^verbatim>\<open>pending_nonces.get(addr, set())\<close>\<close>

definition pending_for :: "(string \<rightharpoonup> int set) \<Rightarrow> string \<Rightarrow> int set" where
  "pending_for pn a = (case pn a of None \<Rightarrow> {} | Some s \<Rightarrow> s)"

text \<open>
  One sender of the pending section: \<^verbatim>\<open>setdefault(a, set())\<close>, then every key of the
  nonce map that parses is added to the set.
\<close>

definition harvest_sender :: "string \<times> json \<Rightarrow> (string \<rightharpoonup> int set) \<Rightarrow> (string \<rightharpoonup> int set)" where
  "harvest_sender sender pn =
     (let a = lower (fst sender);
          s = pending_for pn a
      in case snd sender of
           JObj nonce_map \<Rightarrow>
             pn(a \<mapsto> fold (\<lambda>kv acc. case probe_nonce (fst kv) of
                                          None \<Rightarrow> acc
                                        | Some n \<Rightarrow> insert n acc) nonce_map s)
         | _ \<Rightarrow> pn(a \<mapsto> s))"

text \<open>One sender of the queued section: every entry whose nonce parses is appended.\<close>

definition collect_sender ::
  "string \<times> json \<Rightarrow> (string \<times> int \<times> string) list \<Rightarrow> (string \<times> int \<times> string) list" where
  "collect_sender sender qe =
     (let a = lower (fst sender)
      in case snd sender of
           JObj nonce_map \<Rightarrow>
             fold (\<lambda>kv acc. case probe_nonce (fst kv) of
                              None \<Rightarrow> acc
                            | Some n \<Rightarrow> acc @ [(a, n, py_str (snd kv))]) nonce_map qe
         | _ \<Rightarrow> qe)"

text \<open>The part of the loop body that reads one snapshot \<^verbatim>\<open>insp\<close> (a dict).\<close>

definition ingest :: "(string \<times> json) list \<Rightarrow> agg_state \<Rightarrow> agg_state" where
  "ingest insp st =
     (let st1 = (case or_empty (dict_get insp ''pending'') of
                   JObj pending_map \<Rightarrow>
                     st\<lparr>pending_nonces := fold harvest_sender pending_map (pending_nonces st)\<rparr>
                 | _ \<Rightarrow> st)
      in case or_empty (dict_get insp ''queued'') of
           JObj queued_map \<Rightarrow>
             st1\<lparr>queued_entries := fold collect_sender queued_map (queued_entries st1)\<rparr>
         | _ \<Rightarrow> st1)"

text \<open>
  One iteration of the second loop.  The base fee is fetched first (its value is not
  used here).  After a failed \<^verbatim>\<open>txpool_inspect\<close> call the program pauses and goes on
  to the next round.  A result that is neither empty nor a dict has no \<^verbatim>\<open>get\<close>, and
  that exception is not caught.  Otherwise the snapshot is read, and the program pauses.
\<close>

definition inspect_round ::
  "rpc_env \<Rightarrow> pacing \<Rightarrow> agg_state \<times> rpc_request list
     \<Rightarrow> (agg_state \<times> rpc_request list) \<times> exn option" where
  "inspect_round env p s =
     (case s of (st, log) \<Rightarrow>
        (case get_pending_basefee_wei env log of
           (basefee_wei, log1) \<Rightarrow>
             (case rpc_call env TxpoolInspect log1 of
                (Inl e, log2) \<Rightarrow> ((st, log2), sleep_briefly p (int (length log2)))
              | (Inr r, log2) \<Rightarrow>
                  (case or_empty r of
                     JObj insp \<Rightarrow> ((ingest insp st, log2), sleep_briefly p (int (length log2)))
                   | _ \<Rightarrow> ((st, log2), Some AttributeError)))))"

text \<open>\<^verbatim>\<open>for _ in range(max(1, INSPECT_HITS))\<close>\<close>

definition collate ::
  "rpc_env \<Rightarrow> pacing \<Rightarrow> int \<Rightarrow> rpc_request list
     \<Rightarrow> (agg_state \<times> rpc_request list) \<times> exn option" where
  "collate env p inspect_hits log =
     rounds (nat (max 1 inspect_hits)) (inspect_round env p) (init_agg_state, log)"

text \<open>
  \<^verbatim>\<open>queued_entries = list({...})\<close>: the distinct entries.  The order of the new list is
  the iteration order of a Python set, which is not determined by the program, so the
  deduplicated entries are a set here and the loops over them take a list of its
  elements in some order.
\<close>

definition unique_queued :: "agg_state \<Rightarrow> (string \<times> int \<times> string) set" where
  "unique_queued st = set (queued_entries st)"

subsection \<open>Reading fee fields out of a summary\<close>

definition is_digit :: "char \<Rightarrow> bool" where
  "is_digit c = (c \<in> set ''0123456789'')"

definition is_hexdigit :: "char \<Rightarrow> bool" where
  "is_hexdigit c = (c \<in> set ''0123456789abcdefABCDEF'')"

text \<open>\<^verbatim>\<open>\d+\<close> at the start of the text.\<close>

definition match_digits :: "string \<Rightarrow> string option" where
  "match_digits t = (let d = takeWhile is_digit t in if d = [] then None else Some d)"

text \<open>
  The group \<^verbatim>\<open>(0x[0-9a-fA-F]+|\d+)\<close> at the start of the text.  The patterns are
  compiled with \<^verbatim>\<open>IGNORECASE\<close>, so the first alternative also takes \<^verbatim>\<open>0X\<close>; when it
  fails the second alternative is tried.
\<close>

definition match_number :: "string \<Rightarrow> string option" where
  "match_number t =
     (case t of
        c # x # rest \<Rightarrow>
          if c = CHR ''0'' \<and> lower_char x = CHR ''x'' \<and> takeWhile is_hexdigit rest \<noteq> []
          then Some (c # x # takeWhile is_hexdigit rest)
          else match_digits t
      | _ \<Rightarrow> match_digits t)"

text \<open>
  A pattern \<^verbatim>\<open>NAME\s*[:=]\s*(0x[0-9a-fA-F]+|\d+)\<close> with \<^verbatim>\<open>IGNORECASE\<close>, matched at the
  start of the text; the result is group 1.  All six patterns of the script have this
  shape, so a pattern is given by its \<^verbatim>\<open>NAME\<close>.
\<close>

definition match_field :: "string \<Rightarrow> string \<Rightarrow> string option" where
  "match_field name t =
     (if lower (take (length name) t) = lower name then
        (case dropWhile is_space (drop (length name) t) of
           [] \<Rightarrow> None
         | c # rest \<Rightarrow>
             if c = CHR '':'' \<or> c = CHR ''='' then match_number (dropWhile is_space rest)
             else None)
      else None)"

text \<open>\<^verbatim>\<open>pat.search(text)\<close>: the match at the leftmost position that has one.\<close>

fun regex_search :: "string \<Rightarrow> string \<Rightarrow> string option" where
  "regex_search name [] = match_field name []"
| "regex_search name (c # cs) =
     (case match_field name (c # cs) of
        Some g \<Rightarrow> Some g
      | None \<Rightarrow> regex_search name cs)"

definition INSPECT_FEE_REGEXES :: "string list" where
  "INSPECT_FEE_REGEXES = [''feeCap'', ''maxFeePerGas'']"

definition INSPECT_TIP_REGEXES :: "string list" where
  "INSPECT_TIP_REGEXES = [''tip'', ''maxPriorityFeePerGas'']"

definition INSPECT_GASPRICE_REGEXES :: "string list" where
  "INSPECT_GASPRICE_REGEXES = [''gasprice'', ''gasPrice'']"

text \<open>
  \<^verbatim>\<open>parse_int_from_patterns\<close>: the first pattern that matches decides; its group goes
  through \<^const>\<open>hex_to_int\<close>, which may raise.  \<open>Inr None\<close> is the result \<^verbatim>\<open>None\<close>.
\<close>

fun parse_int_from_patterns :: "string \<Rightarrow> string list \<Rightarrow> exn + int option" where
  "parse_int_from_patterns t [] = Inr None"
| "parse_int_from_patterns t (pat # pats) =
     (case regex_search pat t of
        Some g \<Rightarrow> (case hex_to_int (JStr g) of Inl e \<Rightarrow> Inl e | Inr n \<Rightarrow> Inr (Some n))
      | None \<Rightarrow> parse_int_from_patterns t pats)"

subsection \<open>The classifier\<close>

datatype reason = NonceGap | BelowFloor | UnderBasefee | Unknown

text \<open>
  \<^verbatim>\<open>get_next_nonce\<close>: the cached value, or else the answer of the endpoint
  (\<^verbatim>\<open>rpc.call(...) or "0x0"\<close>), 0 when the call or the conversion raises; the value is
  stored in the cache either way.
\<close>

definition get_next_nonce ::
  "rpc_env \<Rightarrow> string \<Rightarrow> (string \<rightharpoonup> int) \<times> rpc_request list
     \<Rightarrow> int \<times> (string \<rightharpoonup> int) \<times> rpc_request list" where
  "get_next_nonce env addr s =
     (case s of (cache, log) \<Rightarrow>
        (case cache addr of
           Some nn \<Rightarrow> (nn, cache, log)
         | None \<Rightarrow>
             (case rpc_call env (GetTransactionCount addr) log of
                (r, log') \<Rightarrow>
                  (let nn = (case r of
                               Inl e \<Rightarrow> 0
                             | Inr j \<Rightarrow>
                                 (case hex_to_int (if truthy j then j else JStr ''0x0'') of
                                    Inl e \<Rightarrow> 0
                                  | Inr n \<Rightarrow> n))
                   in (nn, cache(addr \<mapsto> nn), log')))))"

text \<open>
  \<^verbatim>\<open>has_all_prior = all((n in pending_for_addr) for n in range(nn, max(nn, nonce)))\<close>
  and \<^verbatim>\<open>is_nonce_gap = nonce > nn and not has_all_prior\<close>.
\<close>

definition has_all_prior :: "int set \<Rightarrow> int \<Rightarrow> int \<Rightarrow> bool" where
  "has_all_prior pending_for_addr nn n =
     list_all (\<lambda>k. k \<in> pending_for_addr) (py_range nn (max nn n))"

definition is_nonce_gap :: "int set \<Rightarrow> int \<Rightarrow> int \<Rightarrow> bool" where
  "is_nonce_gap pending_for_addr nn n = (n > nn \<and> \<not> has_all_prior pending_for_addr nn n)"

text \<open>
  The \<^verbatim>\<open>else\<close> branch of the classification: all three fields are parsed, then the
  reason is chosen.  The base fee is asked for only in the \<^verbatim>\<open>elif\<close> branch.
  \<open>wei_floor\<close> is the constant \<^verbatim>\<open>WEI_FLOOR\<close> (the configured floor in wei).
\<close>

definition infer_pricing ::
  "rpc_env \<Rightarrow> int \<Rightarrow> string \<Rightarrow> rpc_request list \<Rightarrow> exn + reason \<times> rpc_request list" where
  "infer_pricing env wei_floor summary log =
     (case parse_int_from_patterns summary INSPECT_FEE_REGEXES of
        Inl e \<Rightarrow> Inl e
      | Inr fee_cap \<Rightarrow>
     (case parse_int_from_patterns summary INSPECT_TIP_REGEXES of
        Inl e \<Rightarrow> Inl e
      | Inr tip_cap \<Rightarrow>
     (case parse_int_from_patterns summary INSPECT_GASPRICE_REGEXES of
        Inl e \<Rightarrow> Inl e
      | Inr gas_price \<Rightarrow>
          (case gas_price of
             Some gp \<Rightarrow> Inr (if gp < max wei_floor 0 then BelowFloor else Unknown, log)
           | None \<Rightarrow>
               (case fee_cap of
                  Some fc \<Rightarrow>
                    (case get_pending_basefee_wei env log of
                       (basefee_now, log') \<Rightarrow>
                         Inr (if fc < basefee_now then UnderBasefee else Unknown, log'))
                | None \<Rightarrow> Inr (Unknown, log))))))"

text \<open>
  The reason of one queued entry, with the cache and the call log before and after.
\<close>

definition classify_entry ::
  "rpc_env \<Rightarrow> int \<Rightarrow> (string \<rightharpoonup> int set) \<Rightarrow> string \<times> int \<times> string
     \<Rightarrow> (string \<rightharpoonup> int) \<times> rpc_request list
     \<Rightarrow> exn + reason \<times> (string \<rightharpoonup> int) \<times> rpc_request list" where
  "classify_entry env wei_floor pn entry s =
     (case entry of (addr, n, summary) \<Rightarrow>
        (case get_next_nonce env addr s of
           (nn, cache', log1) \<Rightarrow>
             if is_nonce_gap (pending_for pn addr) nn n then Inr (NonceGap, cache', log1)
             else (case infer_pricing env wei_floor summary log1 of
                     Inl e \<Rightarrow> Inl e
                   | Inr (r, log2) \<Rightarrow> Inr (r, cache', log2))))"

text \<open>The state of the classification loop: cache, call log and the two tallies.\<close>

record classifier_state =
  next_nonce_cache :: "string \<rightharpoonup> int"
  rpc_log :: "rpc_request list"
  reasons_count :: "reason \<Rightarrow> nat"
  reasons_by_sender :: "string \<rightharpoonup> (reason \<rightharpoonup> nat)"

definition bump :: "(reason \<rightharpoonup> nat) \<Rightarrow> reason \<Rightarrow> (reason \<rightharpoonup> nat)" where
  "bump bucket r = bucket(r \<mapsto> (case bucket r of None \<Rightarrow> 0 | Some c \<Rightarrow> c) + 1)"

definition classify_step ::
  "rpc_env \<Rightarrow> int \<Rightarrow> (string \<rightharpoonup> int set) \<Rightarrow> string \<times> int \<times> string
     \<Rightarrow> classifier_state \<Rightarrow> exn + classifier_state" where
  "classify_step env wei_floor pn entry st =
     (case classify_entry env wei_floor pn entry (next_nonce_cache st, rpc_log st) of
        Inl e \<Rightarrow> Inl e
      | Inr (r, cache', log') \<Rightarrow>
          Inr (st\<lparr>next_nonce_cache := cache', rpc_log := log',
                  reasons_count := (reasons_count st)(r := reasons_count st r + 1),
                  reasons_by_sender :=
                    (reasons_by_sender st)(fst entry \<mapsto>
                       bump (case reasons_by_sender st (fst entry) of
                               None \<Rightarrow> Map.empty
                             | Some b \<Rightarrow> b) r)\<rparr>))"

text \<open>
  The loop \<^verbatim>\<open>for addr, nonce, summary in queued_entries\<close>, over the deduplicated
  entries in their order.  An exception of the body is not caught: it ends the run.
\<close>

definition classify_all ::
  "rpc_env \<Rightarrow> int \<Rightarrow> (string \<rightharpoonup> int set) \<Rightarrow> (string \<times> int \<times> string) list
     \<Rightarrow> classifier_state \<Rightarrow> classifier_state \<times> exn option" where
  "classify_all env wei_floor pn entries st =
     loop_raising (classify_step env wei_floor pn) entries st"

subsection \<open>The consolidated table\<close>

text \<open>A row of \<^verbatim>\<open>consolidated_rows\<close>, as \<^verbatim>\<open>summarize_addr\<close> builds it.\<close>

record row =
  row_address :: string
  next_nonce :: int
  pending_count :: nat
  queued_count :: nat
  pending_min :: "int option"
  pending_max :: "int option"
  queued_min :: "int option"
  queued_max :: "int option"
  first_gap_nonce :: int
  has_union_nonce_gap :: bool
  reasons :: "reason \<rightharpoonup> nat"

text \<open>
  \<^verbatim>\<open>sorted(xs, key=f, reverse=True)\<close>: the stable sort of the reversed list,
  reversed, so that rows with equal keys keep their order.
\<close>

definition sorted_reverse :: "('a \<Rightarrow> 'k::linorder) \<Rightarrow> 'a list \<Rightarrow> 'a list" where
  "sorted_reverse f xs = rev (sort_key f (rev xs))"

text \<open>The slice \<^verbatim>\<open>xs[:n]\<close>; a negative \<^verbatim>\<open>n\<close> counts from the end.\<close>

definition slice_to :: "int \<Rightarrow> 'a list \<Rightarrow> 'a list" where
  "slice_to n xs = (if 0 \<le> n then take (nat n) xs else take (length xs - nat (- n)) xs)"

text \<open>The key \<^verbatim>\<open>lambda r: (r["queued_count"], r["pending_count"])\<close>, compared as tuples.\<close>

definition row_key :: "row \<Rightarrow> nat \<times> nat" where
  "row_key r = (queued_count r, pending_count r)"

text \<open>The value of \<^verbatim>\<open>"consolidated"\<close> in the report.\<close>

definition consolidated :: "int \<Rightarrow> row list \<Rightarrow> row list" where
  "consolidated consolidated_limit consolidated_rows =
     slice_to consolidated_limit (sorted_reverse row_key consolidated_rows)"

section \<open>Example inputs\<close>

text \<open>A snapshot whose only entry is one transaction in the pending section.\<close>

definition one_pending :: "string \<Rightarrow> string \<Rightarrow> string \<Rightarrow> (string \<times> json) list" where
  "one_pending sender nonce_str h =
     [(''pending'', JObj [(sender, JObj [(nonce_str, JObj [(''hash'', JStr h)])])])]"

text \<open>The same in the queued section.\<close>

definition one_queued :: "string \<Rightarrow> string \<Rightarrow> string \<Rightarrow> (string \<times> json) list" where
  "one_queued sender nonce_str h =
     [(''queued'', JObj [(sender, JObj [(nonce_str, JObj [(''hash'', JStr h)])])])]"

text \<open>
  A sender with two pending transactions; the key of the first one is not a number.
\<close>

definition malformed_first :: "(string \<times> json) list" where
  "malformed_first =
     [(''pending'', JObj [(''0x01'', JObj [(''zz'', JObj [(''hash'', JStr ''0xaa'')]),
                                           (''8'', JObj [(''hash'', JStr ''0xbb'')])])])]"

text \<open>
  An endpoint that answers next nonce 0 and a pending block with base fee 20, and fails
  the pool methods.
\<close>

definition env_basefee_20 :: rpc_env where
  "env_basefee_20 k req =
     (case req of
        GetTransactionCount a \<Rightarrow> Inr (JStr ''0x0'')
      | GetBlockPending \<Rightarrow> Inr (JObj [(''baseFeePerGas'', JStr ''0x14'')])
      | _ \<Rightarrow> Inl RpcError)"

text \<open>An endpoint every call to which raises.\<close>

definition env_down :: rpc_env where
  "env_down k req = Inl RpcError"

text \<open>
  An endpoint that answers every method; the call with index 2 (the first
  \<^verbatim>\<open>txpool_inspect\<close> after one status poll) fails.
\<close>

definition env_pool :: rpc_env where
  "env_pool k req =
     (case req of
        TxpoolStatus \<Rightarrow> Inr (JObj [(''pending'', JStr ''0x2''), (''queued'', JInt 1)])
      | TxpoolInspect \<Rightarrow> if k = 2 then Inl RpcError
                         else Inr (JObj (one_queued ''0xA1'' ''5'' ''0xaa''))
      | GetBlockPending \<Rightarrow> Inr (JObj [(''baseFeePerGas'', JStr ''0x14'')])
      | GetTransactionCount a \<Rightarrow> Inr (JStr ''0x3''))"

text \<open>
  The default settings of the two scripts (\<^verbatim>\<open>--sleep 100 --jitter 50\<close>, and
  \<^verbatim>\<open>SLEEP_MS_MIN=50\<close>, \<^verbatim>\<open>SLEEP_MS_JITTER=50\<close>), on a platform that accepts a day of sleep.
\<close>

definition search_defaults :: pacing where
  "search_defaults =
     \<lparr>sleep_ms_min = 100, sleep_ms_jitter = 50, longest_sleep_ms = 86400000, draw = (\<lambda>k. 7 * k)\<rparr>"

definition probe_defaults :: pacing where
  "probe_defaults =
     \<lparr>sleep_ms_min = 50, sleep_ms_jitter = 50, longest_sleep_ms = 86400000, draw = (\<lambda>k. 7 * k)\<rparr>"

text \<open>The same with a jitter of -1.\<close>

definition negative_jitter :: pacing where
  "negative_jitter = search_defaults\<lparr>sleep_ms_jitter := - 1\<rparr>"

text \<open>A row with the given address, queued count and pending count.\<close>

definition sender_row :: "string \<Rightarrow> nat \<Rightarrow> nat \<Rightarrow> row" where
  "sender_row a q p =
     \<lparr>row_address = a, next_nonce = 0, pending_count = p, queued_count = q,
      pending_min = None, pending_max = None, queued_min = None, queued_max = None,
      first_gap_nonce = 0, has_union_nonce_gap = False, reasons = Map.empty\<rparr>"

text \<open>Two snapshots of the pool; the second has a queued entry with a malformed nonce.\<close>

definition pool_view_1 :: "(string \<times> json) list" where
  "pool_view_1 =
     [(''pending'', JObj [(''0xA1'', JObj [(''3'', JStr ''transfer'')])]),
      (''queued'', JObj [(''0xA1'', JObj [(''5'', JStr ''feeCap: 10'')])])]"

definition pool_view_2 :: "(string \<times> json) list" where
  "pool_view_2 =
     [(''pending'', JObj [(''0xa1'', JObj [(''0x4'', JStr ''transfer'')])]),
      (''queued'', JObj [(''0xB2'', JObj [(''zz'', JStr ''gasPrice: 2''),
                                          (''1'', JStr ''gasPrice: 1'')])])]"

section \<open>Notions used in the statements\<close>

text \<open>
  The keys of \<^verbatim>\<open>found_transactions\<close> are distinct target hashes; the second argument
  is the number of rounds issued so far.
\<close>

definition found_inv :: "string list \<Rightarrow> nat \<Rightarrow> search_state \<Rightarrow> bool" where
  "found_inv T n st \<longleftrightarrow>
     distinct (map fst (found_transactions st)) \<and>
     set (map fst (found_transactions st)) \<subseteq> set T \<and> total_hits st = n"

text \<open>
  Settings with which no pause raises: neither is negative, and the longest delay they
  allow is one the platform accepts.
\<close>

definition sleeps_ok :: "pacing \<Rightarrow> bool" where
  "sleeps_ok p \<longleftrightarrow>
     0 \<le> sleep_ms_min p \<and> 0 \<le> sleep_ms_jitter p \<and>
     sleep_ms_min p + sleep_ms_jitter p \<le> longest_sleep_ms p"

text \<open>
  Every result of \<^verbatim>\<open>txpool_inspect\<close> is a dict or is empty (\<^verbatim>\<open>or {}\<close> makes it a dict).
  Anything else would end the run in \<^const>\<open>inspect_round\<close>.
\<close>

definition inspect_answers_ok :: "rpc_env \<Rightarrow> bool" where
  "inspect_answers_ok env \<longleftrightarrow>
     (\<forall>k r. env k TxpoolInspect = Inr r \<longrightarrow> (\<exists>d. or_empty r = JObj d))"

text \<open>The nonces among the keys of a nonce map: those that \<^const>\<open>probe_nonce\<close> can read.\<close>

definition nonces_of :: "(string \<times> json) list \<Rightarrow> int set" where
  "nonces_of m = (\<Union>kv \<in> set m. case probe_nonce (fst kv) of None \<Rightarrow> {} | Some n \<Rightarrow> {n})"

text \<open>The nonces one sender of the pending section contributes.\<close>

definition sender_nonces :: "string \<times> json \<Rightarrow> int set" where
  "sender_nonces sender = (case snd sender of JObj m \<Rightarrow> nonces_of m | _ \<Rightarrow> {})"

text \<open>The entries one sender of the queued section contributes.\<close>

definition sender_entries :: "string \<times> json \<Rightarrow> (string \<times> int \<times> string) set" where
  "sender_entries sender =
     (case snd sender of
        JObj m \<Rightarrow> (\<Union>kv \<in> set m. case probe_nonce (fst kv) of
                                          None \<Rightarrow> {}
                                        | Some n \<Rightarrow> {(lower (fst sender), n, py_str (snd kv))})
      | _ \<Rightarrow> {})"

text \<open>The senders of a section of a snapshot; none when the section is not a dict.\<close>

definition section_of :: "string \<Rightarrow> (string \<times> json) list \<Rightarrow> (string \<times> json) list" where
  "section_of key insp = (case or_empty (dict_get insp key) of JObj m \<Rightarrow> m | _ \<Rightarrow> [])"

text \<open>
  What one snapshot contributes: the (lowercased) senders of its pending section, the
  nonces it shows for a sender, and its queued entries.
\<close>

definition snapshot_senders :: "(string \<times> json) list \<Rightarrow> string set" where
  "snapshot_senders insp = (\<lambda>s. lower (fst s)) ` set (section_of ''pending'' insp)"

definition snapshot_nonces :: "(string \<times> json) list \<Rightarrow> string \<Rightarrow> int set" where
  "snapshot_nonces insp a =
     (\<Union>s \<in> {s \<in> set (section_of ''pending'' insp). lower (fst s) = a}. sender_nonces s)"

definition snapshot_entries :: "(string \<times> json) list \<Rightarrow> (string \<times> int \<times> string) set" where
  "snapshot_entries insp = (\<Union>s \<in> set (section_of ''queued'' insp). sender_entries s)"

section \<open>Properties of the primitives\<close>

lemma py_int_examples:
  "py_int 10 ''12'' = Some 12"
  "py_int 0 ''0x1f'' = Some 31"
  "py_int 16 ''0x1F'' = Some 31"
  "py_int 10 ''0X1F'' = None"
  "py_int 0 '' -7 '' = Some (- 7)"
  "py_int 0 ''010'' = None"
  "py_int 10 ''1_000'' = Some 1000"
  "py_int 10 ''zz'' = None"
  by code_simp+

section \<open>Properties of search mode\<close>

subsection \<open>An invariant of the loop\<close>

lemma loop_raising_pres:
  assumes "\<And>x s s'. P s \<Longrightarrow> body x s = Inr s' \<Longrightarrow> P s'" and "P st"
  shows "P (fst (loop_raising body xs st))"
  using assms(2)
proof (induction xs arbitrary: st)
  case Nil
  then show ?case by simp
next
  case (Cons x xs)
  show ?case
  proof (cases "body x st")
    case (Inl e)
    with Cons.prems show ?thesis by simp
  next
    case (Inr s')
    with Cons.prems have "P s'" using assms(1) by blast
    with Cons.IH Inr show ?thesis by simp
  qed
qed

lemma loop_nested_pres:
  assumes "\<And>x s. P s \<Longrightarrow> P (fst (body x s))" and "P st"
  shows "P (fst (loop_nested body xs st))"
  using assms(2)
proof (induction xs arbitrary: st)
  case Nil
  then show ?case by simp
next
  case (Cons x xs)
  obtain s' r where b: "body x st = (s', r)" by (cases "body x st")
  with Cons.prems assms(1)[of st x] have "P s'" by simp
  with Cons.IH b show ?case by (cases r) simp_all
qed

lemma record_match_inv:
  "found_inv T n st \<Longrightarrow> found_inv T n (record_match T A h info st)"
  by (simp add: found_inv_def record_match_def Let_def dom_update distinct_update)

lemma scan_entry_inv:
  "found_inv T n st \<Longrightarrow> scan_entry T A stat hit a item st = Inr st' \<Longrightarrow> found_inv T n st'"
  by (auto simp: scan_entry_def record_match_inv split: json.splits if_splits sum.splits)

lemma scan_sender_inv:
  "found_inv T n st \<Longrightarrow> found_inv T n (fst (scan_sender T A stat hit sender st))"
  unfolding scan_sender_def
  by (auto split: json.splits intro!: loop_raising_pres[where P="found_inv T n"] elim: scan_entry_inv)

lemma found_inv_counters:
  "found_inv T n st \<Longrightarrow> found_inv T n (st\<lparr>pending_searches := a\<rparr>)"
  "found_inv T n st \<Longrightarrow> found_inv T n (st\<lparr>queued_searches := a\<rparr>)"
  "found_inv T n st \<Longrightarrow> found_inv T n (st\<lparr>failed_hits := a\<rparr>)"
  "found_inv T n st \<Longrightarrow> found_inv T n (st\<lparr>successful_hits := a\<rparr>)"
  by (simp_all add: found_inv_def)

lemma scan_section_inv:
  "found_inv T n st \<Longrightarrow> found_inv T n (fst (scan_section T A stat hit insp st))"
  unfolding scan_section_def
  by (auto split: json.splits tx_status.splits
           intro!: loop_nested_pres[where P="found_inv T n"] scan_sender_inv found_inv_counters)

lemma ingest_search_inv:
  "found_inv T n st \<Longrightarrow> found_inv T n (fst (ingest_search T A hit insp st))"
proof -
  assume a: "found_inv T n st"
  obtain s1 r1 where p: "scan_section T A Pending hit insp st = (s1, r1)"
    by (cases "scan_section T A Pending hit insp st")
  from scan_section_inv[OF a, of A Pending hit insp] p have s1: "found_inv T n s1" by simp
  show ?thesis
    using p s1 scan_section_inv[OF s1, of A Queued hit insp]
    by (cases r1) (simp_all add: ingest_search_def)
qed

lemma try_hit_inv:
  "found_inv T n st \<Longrightarrow> found_inv T n (try_hit T A hit resp st)"
proof (cases resp)
  case (Inl e)
  assume "found_inv T n st"
  then show ?thesis using Inl by (simp add: try_hit_def found_inv_counters)
next
  case (Inr r)
  assume a: "found_inv T n st"
  then have a1: "found_inv T n (st\<lparr>successful_hits := successful_hits st + 1\<rparr>)"
    by (rule found_inv_counters)
  show ?thesis
  proof (cases "or_empty r")
    case (JObj insp)
    obtain s2 r2 where
      p: "ingest_search T A hit insp (st\<lparr>successful_hits := successful_hits st + 1\<rparr>) = (s2, r2)"
      by (cases "ingest_search T A hit insp (st\<lparr>successful_hits := successful_hits st + 1\<rparr>)")
    from ingest_search_inv[OF a1, of A hit insp] p have "found_inv T n s2" by simp
    then show ?thesis using Inr JObj p
      by (cases r2) (simp_all add: try_hit_def found_inv_counters)
  qed (use Inr a1 in \<open>simp_all add: try_hit_def found_inv_counters\<close>)
qed

lemma found_inv_length:
  assumes "found_inv T n st"
  shows "length (found_transactions st) \<le> card (set T)"
proof -
  from assms have "distinct (map fst (found_transactions st))"
    and sub: "set (map fst (found_transactions st)) \<subseteq> set T"
    by (simp_all add: found_inv_def)
  then have "length (found_transactions st) = card (set (map fst (found_transactions st)))"
    by (metis distinct_card length_map)
  also have "\<dots> \<le> card (set T)" using sub by (intro card_mono) simp_all
  finally show ?thesis .
qed

lemma not_distinct_card: "\<not> distinct xs \<Longrightarrow> card (set xs) < length xs"
  by (metis card_distinct card_length le_neq_implies_less)

lemma duplicates_never_all_found:
  "\<not> distinct T \<Longrightarrow> found_inv T n st \<Longrightarrow> \<not> all_found T st"
  using found_inv_length[of T n st] not_distinct_card[of T] by (simp add: all_found_def)

text \<open>With settings that are in range no pause raises.\<close>

lemma sleeps_ok_no_raise:
  assumes "sleeps_ok p"
  shows "sleep_briefly p k = None"
proof -
  from assms have j: "0 \<le> sleep_ms_jitter p" by (simp add: sleeps_ok_def)
  then have r: "randint 0 (sleep_ms_jitter p) (draw p k) = Inr (draw p k mod (sleep_ms_jitter p + 1))"
    by (simp add: randint_def)
  from j have pos: "0 < sleep_ms_jitter p + 1" by arith
  have "0 \<le> draw p k mod (sleep_ms_jitter p + 1)"
    using pos by (rule pos_mod_sign)
  moreover have "draw p k mod (sleep_ms_jitter p + 1) < sleep_ms_jitter p + 1"
    using pos by (rule pos_mod_bound)
  ultimately have "0 \<le> draw p k mod (sleep_ms_jitter p + 1)"
    and "draw p k mod (sleep_ms_jitter p + 1) \<le> sleep_ms_jitter p"
    by arith+
  with assms show ?thesis by (simp add: sleep_briefly_def r sleeps_ok_def)
qed

text \<open>A negative jitter makes every pause raise.\<close>

lemma negative_jitter_raises:
  "sleep_ms_jitter p < 0 \<Longrightarrow> sleep_briefly p k = Some ValueError"
  by (simp add: sleep_briefly_def randint_def)

text \<open>The loop keeps the invariant and issues at most one round per hit number.\<close>

lemma search_loop_inv:
  "found_inv T n st \<Longrightarrow>
   \<exists>m \<le> length hs. found_inv T (n + m) (fst (search_loop rpc p T A hs st))"
proof (induction hs arbitrary: st n)
  case Nil
  then show ?case by simp
next
  case (Cons h hs)
  let ?s1 = "try_hit T A h (rpc h) (st\<lparr>total_hits := total_hits st + 1\<rparr>)"
  from Cons.prems have "found_inv T (Suc n) (st\<lparr>total_hits := total_hits st + 1\<rparr>)"
    by (simp add: found_inv_def)
  then have s1: "found_inv T (Suc n) ?s1" by (rule try_hit_inv)
  show ?case
  proof (cases "all_found T ?s1 \<or> sleep_briefly p h \<noteq> None")
    case True
    then have "fst (search_loop rpc p T A (h # hs) st) = ?s1"
      by (auto simp: Let_def split: option.splits)
    with s1 show ?thesis by (intro exI[of _ 1]) simp
  next
    case False
    then have e: "search_loop rpc p T A (h # hs) st = search_loop rpc p T A hs ?s1"
      by (simp add: Let_def)
    from Cons.IH[OF s1] obtain m where "m \<le> length hs"
      and "found_inv T (Suc n + m) (fst (search_loop rpc p T A hs ?s1))" by blast
    then show ?thesis unfolding e by (intro exI[of _ "Suc m"]) simp
  qed
qed

text \<open>
  While the exit test cannot succeed and no pause raises, every hit number of the list
  gets its round.
\<close>

lemma search_loop_never_found:
  assumes "\<And>k s. found_inv T k s \<Longrightarrow> \<not> all_found T s" and "sleeps_ok p"
  shows "found_inv T n st \<Longrightarrow>
         snd (search_loop rpc p T A hs st) = None \<and>
         found_inv T (n + length hs) (fst (search_loop rpc p T A hs st))"
proof (induction hs arbitrary: st n)
  case Nil
  then show ?case by simp
next
  case (Cons h hs)
  let ?s1 = "try_hit T A h (rpc h) (st\<lparr>total_hits := total_hits st + 1\<rparr>)"
  from Cons.prems have "found_inv T (Suc n) (st\<lparr>total_hits := total_hits st + 1\<rparr>)"
    by (simp add: found_inv_def)
  then have s1: "found_inv T (Suc n) ?s1" by (rule try_hit_inv)
  then have "\<not> all_found T ?s1" by (rule assms(1))
  with Cons.IH[OF s1] sleeps_ok_no_raise[OF assms(2)] show ?case by (simp add: Let_def)
qed

lemma length_py_range: "length (py_range a b) = nat (b - a)"
  by (simp add: py_range_def)

lemma py_range_unfold: "a < b \<Longrightarrow> py_range a b = a # py_range (a + 1) b"
  by (simp add: py_range_def upto_rec1)

lemma py_range_Cons:
  assumes "py_range a b = h # t"
  shows "h = a \<and> t = py_range (a + 1) b"
proof (cases "a \<le> b - 1")
  case True
  then have "py_range a b = a # py_range (a + 1) b"
    unfolding py_range_def by (rule upto_rec1)
  with assms[symmetric] have "h # t = a # py_range (a + 1) b" by (rule trans)
  then show ?thesis by (simp only: list.inject)
next
  case False
  then have "py_range a b = []" by (simp add: py_range_def)
  with assms show ?thesis by simp
qed

text \<open>
  While the exit test cannot succeed, the loop ends in one of two ways: after the last
  hit number of the budget, or in the pause of the round just counted, with the
  exception of that pause.
\<close>

lemma search_loop_no_exit:
  assumes "\<And>k s. found_inv T k s \<Longrightarrow> \<not> all_found T s"
  shows "found_inv T n st \<Longrightarrow> hs = py_range (int n + 1) b \<Longrightarrow>
         (case snd (search_loop rpc p T A hs st) of
            None \<Rightarrow> total_hits (fst (search_loop rpc p T A hs st)) = n + length hs
          | Some x \<Rightarrow>
              sleep_briefly p (int (total_hits (fst (search_loop rpc p T A hs st)))) = Some x)"
proof (induction hs arbitrary: st n)
  case Nil
  then show ?case by (simp add: found_inv_def)
next
  case (Cons h hs)
  let ?s1 = "try_hit T A h (rpc h) (st\<lparr>total_hits := total_hits st + 1\<rparr>)"
  from Cons.prems(2) have h: "h = int n + 1" and hs: "hs = py_range (int (Suc n) + 1) b"
    using py_range_Cons[of "int n + 1" b h hs] by simp_all
  from Cons.prems(1) have "found_inv T (Suc n) (st\<lparr>total_hits := total_hits st + 1\<rparr>)"
    by (simp add: found_inv_def)
  then have s1: "found_inv T (Suc n) ?s1" by (rule try_hit_inv)
  then have nf: "\<not> all_found T ?s1" by (rule assms)
  from s1 have t1: "int (total_hits ?s1) = h" by (simp add: found_inv_def h)
  show ?case
  proof (cases "sleep_briefly p h")
    case None
    with nf have "search_loop rpc p T A (h # hs) st = search_loop rpc p T A hs ?s1"
      by (simp add: Let_def)
    with Cons.IH[OF s1 hs] show ?thesis by (simp split: option.splits)
  next
    case (Some x)
    with nf have "search_loop rpc p T A (h # hs) st = (?s1, Some x)"
      by (simp add: Let_def)
    with Some t1 show ?thesis by simp
  qed
qed

subsection \<open>The early exit\<close>

text \<open>
  For a target list without repetitions the exit test says what its comment says: all
  target hashes have been found.
\<close>

lemma all_found_iff:
  assumes "distinct T" and "found_inv T n st"
  shows "all_found T st \<longleftrightarrow> T \<noteq> [] \<and> set T \<subseteq> fst ` set (found_transactions st)"
proof -
  let ?K = "map fst (found_transactions st)"
  from assms(2) have dK: "distinct ?K" and sub: "set ?K \<subseteq> set T"
    by (simp_all add: found_inv_def)
  have lenK: "length (found_transactions st) = card (set ?K)"
    using dK by (metis distinct_card length_map)
  have lenT: "length T = card (set T)" using assms(1) by (simp add: distinct_card)
  have "length (found_transactions st) = length T \<longleftrightarrow> set T \<subseteq> set ?K"
  proof
    assume "length (found_transactions st) = length T"
    with lenK lenT have "card (set ?K) = card (set T)" by simp
    with sub have "set ?K = set T" by (intro card_subset_eq) simp_all
    then show "set T \<subseteq> set ?K" by simp
  next
    assume "set T \<subseteq> set ?K"
    with sub have "set ?K = set T" by blast
    with lenK lenT show "length (found_transactions st) = length T" by simp
  qed
  then show ?thesis by (simp add: all_found_def)
qed

text \<open>
  So, for distinct target hashes, the loop returns after the first round that leaves
  every target hash with an entry; otherwise it pauses and issues the next round.
\<close>

lemma early_exit_distinct:
  assumes "distinct T" and "T \<noteq> []" and "found_inv T n st"
  shows "search_loop rpc p T A (h # rest) st =
           (let st1 = try_hit T A h (rpc h) (st\<lparr>total_hits := total_hits st + 1\<rparr>)
            in if set T \<subseteq> fst ` set (found_transactions st1) then (st1, None)
               else (case sleep_briefly p h of
                       Some e \<Rightarrow> (st1, Some e)
                     | None \<Rightarrow> search_loop rpc p T A rest st1))"
proof -
  from assms(3) have "found_inv T (Suc n) (st\<lparr>total_hits := total_hits st + 1\<rparr>)"
    by (simp add: found_inv_def)
  then have "found_inv T (Suc n) (try_hit T A h (rpc h) (st\<lparr>total_hits := total_hits st + 1\<rparr>))"
    by (rule try_hit_inv)
  from all_found_iff[OF assms(1) this] assms(2) show ?thesis by (simp add: Let_def)
qed

text \<open>A search by address only runs every round of the budget, when no pause raises.\<close>

lemma address_only_full_budget:
  assumes "parse_tx_hashes hashes = []" and "parse_tx_addresses addresses \<noteq> []"
    and "sleeps_ok p"
  shows "\<exists>st. search_transactions rpc p hashes addresses hits = Inr (st, None) \<and>
              total_hits st = nat hits"
proof -
  let ?r = "search_loop rpc p [] (parse_tx_addresses addresses) (py_range 1 (hits + 1)) init_search_state"
  have i0: "found_inv [] 0 init_search_state" by (simp add: found_inv_def init_search_state_def)
  have "snd ?r = None \<and> found_inv [] (0 + length (py_range 1 (hits + 1))) (fst ?r)"
    by (rule search_loop_never_found) (simp_all add: all_found_def assms(3) i0)
  then have "snd ?r = None" and "found_inv [] (0 + length (py_range 1 (hits + 1))) (fst ?r)"
    by blast+
  then have "?r = (fst ?r, None)" and "total_hits (fst ?r) = nat hits"
    by (simp_all add: found_inv_def length_py_range prod_eq_iff)
  then show ?thesis using assms(1,2) by (auto simp: search_transactions_def Let_def)
qed

text \<open>
  The scenario of the specification: targets A and B, round 1 finds A pending, round 2
  finds B queued.  Whatever the budget (at least 2) and whatever later rounds would
  return, two rounds are issued (the pause after round 1 must not raise).
\<close>

lemma scenario_full_hash_match:
  assumes "2 \<le> hits" and "sleeps_ok p"
  shows "map_sum id (\<lambda>r. (total_hits (fst r),
                           map (\<lambda>kv. (fst kv, status (snd kv), found_in_hit (snd kv)))
                               (found_transactions (fst r)), snd r))
     (search_transactions
       (\<lambda>i. if i = 1 then Inr (JObj (one_pending ''0x01'' ''7'' ''0xAAA''))
            else if i = 2 then Inr (JObj (one_queued ''0x02'' ''9'' ''0xBBB'')) else later i)
       p ''0xAAA,0xBBB'' [] hits)
     = Inr (2, [(''0xaaa'', Pending, 1), (''0xbbb'', Queued, 2)], None)"
proof -
  let ?rpc = "\<lambda>i. if i = 1 then Inr (JObj (one_pending ''0x01'' ''7'' ''0xAAA''))
            else if i = 2 then Inr (JObj (one_queued ''0x02'' ''9'' ''0xBBB'')) else later i"
  have T: "parse_tx_hashes ''0xAAA,0xBBB'' = [''0xaaa'', ''0xbbb'']" by code_simp
  have A: "parse_tx_addresses [] = []" by code_simp
  have r: "py_range 1 (hits + 1) = 1 # 2 # py_range 3 (hits + 1)"
    using assms(1) by (simp add: py_range_unfold)
  define s1 where "s1 = try_hit [''0xaaa'', ''0xbbb''] [] 1 (Inr (JObj (one_pending ''0x01'' ''7'' ''0xAAA'')))
      (init_search_state\<lparr>total_hits := Suc (total_hits init_search_state)\<rparr>)"
  define s2 where "s2 = try_hit [''0xaaa'', ''0xbbb''] [] 2 (Inr (JObj (one_queued ''0x02'' ''9'' ''0xBBB'')))
      (s1\<lparr>total_hits := Suc (total_hits s1)\<rparr>)"
  have n1: "\<not> all_found [''0xaaa'', ''0xbbb''] s1" unfolding s1_def by code_simp
  have n2: "all_found [''0xaaa'', ''0xbbb''] s2" unfolding s2_def s1_def by code_simp
  have v: "(total_hits s2,
            map (\<lambda>kv. (fst kv, status (snd kv), found_in_hit (snd kv))) (found_transactions s2))
     = (2, [(''0xaaa'', Pending, 1), (''0xbbb'', Queued, 2)])"
    unfolding s2_def s1_def by code_simp
  have "search_loop ?rpc p [''0xaaa'', ''0xbbb''] [] (1 # 2 # py_range 3 (hits + 1)) init_search_state
          = (s2, None)"
    using n1 n2 sleeps_ok_no_raise[OF assms(2)]
    by (simp add: Let_def s1_def[symmetric] s2_def[symmetric])
  then show ?thesis using v by (simp add: search_transactions_def T A r Let_def)
qed

text \<open>
  Claim C5.  The scheduler is to stop at the first round after which every target hash
  has an entry in \<^verbatim>\<open>found_transactions\<close>.  The exit test compares the number of entries
  with the length of the target list, so it does this only for a list without
  repetitions.  With the hash list \<^verbatim>\<open>0xaa,0xaa\<close>, a budget of 3 and the default pauses, the
  first round finds the hash (every target hash then has its entry), and all three
  rounds are issued all the same.
\<close>

theorem early_exit_missed_for_repeated_hash:
  "set (parse_tx_hashes ''0xaa,0xaa'') = {''0xaa''} \<and>
   map fst (found_transactions (fst
      (search_loop (\<lambda>i. Inr (JObj (one_pending ''0x01'' ''7'' ''0xaa''))) search_defaults
         (parse_tx_hashes ''0xaa,0xaa'') [] [1] init_search_state))) = [''0xaa''] \<and>
   map_sum id (\<lambda>r. (total_hits (fst r), snd r))
     (search_transactions (\<lambda>i. Inr (JObj (one_pending ''0x01'' ''7'' ''0xaa''))) search_defaults
        ''0xaa,0xaa'' [] 3)
     = Inr (3, None)"
  by code_simp

text \<open>
  Claim C10, as amended.  When the parsed target list holds a hash twice, the exit test
  is false in the state the loop ends with, whatever the endpoint returns (in particular
  when every distinct target hash has been found), and the loop is never left through
  it: a run that ends without an exception has issued the whole budget of rounds, and a
  run that ends with an exception ends with the one raised by the pause of the last round
  it issued.  When the settings of the pause are in range no pause raises, so the number
  of rounds issued is the whole budget.
\<close>

theorem duplicate_targets_run_full_budget:
  assumes "\<not> distinct (parse_tx_hashes hashes)"
  shows "\<exists>st e. search_transactions rpc p hashes addresses hits = Inr (st, e) \<and>
           \<not> all_found (parse_tx_hashes hashes) st \<and>
           total_hits st \<le> nat hits \<and>
           (e = None \<longrightarrow> total_hits st = nat hits) \<and>
           (\<forall>x. e = Some x \<longrightarrow> sleep_briefly p (int (total_hits st)) = Some x) \<and>
           (sleeps_ok p \<longrightarrow> e = None \<and> total_hits st = nat hits)"
proof -
  let ?T = "parse_tx_hashes hashes"
  let ?r = "search_loop rpc p ?T (parse_tx_addresses addresses) (py_range 1 (hits + 1)) init_search_state"
  from assms have ne: "?T \<noteq> []" by auto
  have i0: "found_inv ?T 0 init_search_state" by (simp add: found_inv_def init_search_state_def)
  from search_loop_inv[OF i0, where hs="py_range 1 (hits + 1)" and rpc=rpc and p=p
                          and A="parse_tx_addresses addresses"]
  obtain m where m: "m \<le> nat hits" and inv: "found_inv ?T (0 + m) (fst ?r)"
    by (auto simp: length_py_range)
  have nf: "\<not> all_found ?T (fst ?r)" using assms inv by (rule duplicates_never_all_found)
  have le: "total_hits (fst ?r) \<le> nat hits" using m inv by (simp add: found_inv_def)
  have full: "snd ?r = None \<and> total_hits (fst ?r) = nat hits" if ok: "sleeps_ok p"
  proof -
    have "snd ?r = None \<and> found_inv ?T (0 + length (py_range 1 (hits + 1))) (fst ?r)"
      by (rule search_loop_never_found) (simp_all add: duplicates_never_all_found[OF assms] ok i0)
    then show ?thesis by (simp add: found_inv_def length_py_range)
  qed
  have "py_range 1 (hits + 1) = py_range (int 0 + 1) (hits + 1)" by simp
  with i0 have "case snd ?r of None \<Rightarrow> total_hits (fst ?r) = 0 + length (py_range 1 (hits + 1))
          | Some x \<Rightarrow> sleep_briefly p (int (total_hits (fst ?r))) = Some x"
    by (rule search_loop_no_exit[OF duplicates_never_all_found[OF assms], rotated 1])
  then have whole: "snd ?r = None \<longrightarrow> total_hits (fst ?r) = nat hits"
    and raised: "\<forall>x. snd ?r = Some x \<longrightarrow> sleep_briefly p (int (total_hits (fst ?r))) = Some x"
    by (simp_all add: length_py_range split: option.splits)
  have run: "search_transactions rpc p hashes addresses hits = Inr (fst ?r, snd ?r)"
    using ne by (simp add: search_transactions_def Let_def)
  show ?thesis
  proof (intro exI[of _ "fst ?r"] exI[of _ "snd ?r"] conjI)
    show "search_transactions rpc p hashes addresses hits = Inr (fst ?r, snd ?r)" by (rule run)
    show "\<not> all_found ?T (fst ?r)" by (rule nf)
    show "total_hits (fst ?r) \<le> nat hits" by (rule le)
    show "snd ?r = None \<longrightarrow> total_hits (fst ?r) = nat hits" by (rule whole)
    show "\<forall>x. snd ?r = Some x \<longrightarrow> sleep_briefly p (int (total_hits (fst ?r))) = Some x"
      by (rule raised)
    show "sleeps_ok p \<longrightarrow> snd ?r = None \<and> total_hits (fst ?r) = nat hits"
      using full by blast
  qed
qed

theorem duplicate_targets_run_full_budget_witness:
  "\<not> distinct (parse_tx_hashes ''0xAA,0xaa'') \<and> sleeps_ok search_defaults \<and>
   (\<exists>st. search_transactions (\<lambda>i. Inr (JObj (one_pending ''0x01'' ''7'' ''0xaa''))) search_defaults
            ''0xAA,0xaa'' [] 3 = Inr (st, None) \<and>
         \<not> all_found (parse_tx_hashes ''0xAA,0xaa'') st \<and> total_hits st = 3)"
proof -
  have h: "\<not> distinct (parse_tx_hashes ''0xAA,0xaa'')" by code_simp
  have ok: "sleeps_ok search_defaults" by (simp add: sleeps_ok_def search_defaults_def)
  from duplicate_targets_run_full_budget[OF h,
         of "\<lambda>i. Inr (JObj (one_pending ''0x01'' ''7'' ''0xaa''))" search_defaults "[]" 3] ok
  have "\<exists>st. search_transactions (\<lambda>i. Inr (JObj (one_pending ''0x01'' ''7'' ''0xaa''))) search_defaults
            ''0xAA,0xaa'' [] 3 = Inr (st, None) \<and>
         \<not> all_found (parse_tx_hashes ''0xAA,0xaa'') st \<and> total_hits st = 3"
    by auto
  with h ok show ?thesis by blast
qed

text \<open>
  Claim C10 as stated fails when the pause raises: with \<^verbatim>\<open>--hashes 0xaa,0xaa --hits 3
  --jitter -1\<close> the run ends with \<^verbatim>\<open>ValueError\<close> in the pause after round 1, so one round
  is issued, not three.
\<close>

theorem negative_jitter_ends_run_after_first_round:
  "\<not> distinct (parse_tx_hashes ''0xaa,0xaa'') \<and>
   map_sum id (\<lambda>r. (total_hits (fst r), snd r))
     (search_transactions (\<lambda>i. Inr (JObj (one_pending ''0x01'' ''7'' ''0xaa''))) negative_jitter
        ''0xaa,0xaa'' [] 3)
     = Inr (1, Some ValueError)"
  by code_simp

subsection \<open>Match records\<close>

text \<open>
  Claim C6, as amended.  The record of a target hash is assigned at every observation:
  after an observation of the hash in hit \<open>hit_num\<close> with status \<open>stat\<close>, sender
  \<open>addr\<close>, nonce \<open>n\<close> and data \<open>tx_data\<close> the record holds exactly these values,
  whatever was recorded before (the last writer wins).
\<close>

theorem found_by_hash_last_writer_wins:
  assumes "map_of tx_data ''hash'' = Some (JStr h)"
    and "normalize_tx_hash h \<in> set target_hashes"
    and "search_nonce nonce_str = Inr n"
  shows "\<exists>st'. scan_entry target_hashes target_addresses stat hit_num addr
                 (nonce_str, JObj tx_data) st = Inr st' \<and>
           map_of (found_transactions st') (normalize_tx_hash h) =
             Some \<lparr>status = stat, address = addr, nonce = n, data = tx_data,
                   found_in_hit = hit_num\<rparr>"
  using assms
  by (simp add: scan_entry_def dict_get_def entry_hash_def record_match_def Let_def update_conv')

theorem found_by_hash_last_writer_wins_witness:
  "map_of [(''hash'', JStr ''0xAA'')] ''hash'' = Some (JStr ''0xAA'') \<and>
   normalize_tx_hash ''0xAA'' \<in> set [''0xaa'', ''0xbb''] \<and>
   search_nonce ''0x9'' = Inr 9 \<and>
   (\<exists>st'. scan_entry [''0xaa'', ''0xbb''] [] Queued 2 ''0x02''
             (''0x9'', JObj [(''hash'', JStr ''0xAA'')])
             (fst (ingest_search [''0xaa'', ''0xbb''] [] 1 (one_pending ''0x01'' ''7'' ''0xaa'')
                     init_search_state))
           = Inr st' \<and>
         map_of (found_transactions st') (normalize_tx_hash ''0xAA'') =
           Some \<lparr>status = Queued, address = ''0x02'', nonce = 9,
                 data = [(''hash'', JStr ''0xAA'')], found_in_hit = 2\<rparr>)"
proof -
  have a: "map_of [(''hash'', JStr ''0xAA'')] ''hash'' = Some (JStr ''0xAA'')" by simp
  have b: "normalize_tx_hash ''0xAA'' \<in> set [''0xaa'', ''0xbb'']" by code_simp
  have c: "search_nonce ''0x9'' = Inr 9" by code_simp
  from found_by_hash_last_writer_wins[OF a b c] a b c show ?thesis by blast
qed

text \<open>
  Claim C6 as stated fails: with targets \<^verbatim>\<open>0xaa\<close> and \<^verbatim>\<open>0xbb\<close>, hit 1 shows \<^verbatim>\<open>0xaa\<close>
  pending from sender \<^verbatim>\<open>0x01\<close> with nonce 7 and hit 2 shows it queued from sender
  \<^verbatim>\<open>0x02\<close> with nonce 9.  After hit 1 the record says hit 1; after hit 2 it says hit 2,
  and status, sender and nonce are those of the second observation.
\<close>

theorem first_seen_not_preserved:
  "map_of (found_transactions
     (fst (search_loop (\<lambda>i. Inr (JObj (if i = 1 then one_pending ''0x01'' ''7'' ''0xaa''
                                        else one_queued ''0x02'' ''9'' ''0xaa''))) search_defaults
        [''0xaa'', ''0xbb''] [] [1] init_search_state))) ''0xaa''
     = Some \<lparr>status = Pending, address = ''0x01'', nonce = 7,
             data = [(''hash'', JStr ''0xaa'')], found_in_hit = 1\<rparr> \<and>
   map_of (found_transactions
     (fst (search_loop (\<lambda>i. Inr (JObj (if i = 1 then one_pending ''0x01'' ''7'' ''0xaa''
                                        else one_queued ''0x02'' ''9'' ''0xaa''))) search_defaults
        [''0xaa'', ''0xbb''] [] [1, 2] init_search_state))) ''0xaa''
     = Some \<lparr>status = Queued, address = ''0x02'', nonce = 9,
             data = [(''hash'', JStr ''0xaa'')], found_in_hit = 2\<rparr>"
  by code_simp

subsection \<open>Ingestion in search mode\<close>

text \<open>
  Claim C1 as stated fails for the two maps of search mode.  Reading the same snapshot
  twice leaves two records in the list of the sender in \<^verbatim>\<open>found_by_address\<close> where one
  reading leaves one; and of two snapshots that show the same hash, once pending and
  once queued, the one read last decides the record in \<^verbatim>\<open>found_transactions\<close>.
\<close>

theorem ingest_search_not_idempotent_nor_commutative:
  "map (\<lambda>kv. (fst kv, length (snd kv)))
     (found_by_address (fst (ingest_search [] [''0x01''] 1 (one_pending ''0x01'' ''7'' ''0xaa'')
        init_search_state))) = [(''0x01'', 1)] \<and>
   map (\<lambda>kv. (fst kv, length (snd kv)))
     (found_by_address (fst (ingest_search [] [''0x01''] 1 (one_pending ''0x01'' ''7'' ''0xaa'')
        (fst (ingest_search [] [''0x01''] 1 (one_pending ''0x01'' ''7'' ''0xaa'')
           init_search_state))))) = [(''0x01'', 2)] \<and>
   map (\<lambda>kv. (fst kv, status (snd kv)))
     (found_transactions (fst (ingest_search [''0xaa''] [] 2 (one_queued ''0x01'' ''7'' ''0xaa'')
        (fst (ingest_search [''0xaa''] [] 1 (one_pending ''0x01'' ''7'' ''0xaa'')
           init_search_state))))) = [(''0xaa'', Queued)] \<and>
   map (\<lambda>kv. (fst kv, status (snd kv)))
     (found_transactions (fst (ingest_search [''0xaa''] [] 2 (one_pending ''0x01'' ''7'' ''0xaa'')
        (fst (ingest_search [''0xaa''] [] 1 (one_queued ''0x01'' ''7'' ''0xaa'')
           init_search_state))))) = [(''0xaa'', Pending)]"
  by code_simp

text \<open>
  Claim C7, in search mode.  The nonce of an entry is converted with no handler of its
  own, so the exception of a malformed nonce reaches the \<^verbatim>\<open>except\<close> of the round: the
  entries after it are not read and the hit counts as failed (and as successful).  In
  \<^const>\<open>malformed_first\<close> the entry with hash \<^verbatim>\<open>0xbb\<close> follows a malformed one and is not
  found; alone in a snapshot it is found.
\<close>

theorem malformed_nonce_drops_rest_of_snapshot:
  "(let st = try_hit [''0xaa'', ''0xbb''] [] 1 (Inr (JObj malformed_first)) init_search_state
    in (map fst (found_transactions st), successful_hits st, failed_hits st)) = ([], 1, 1) \<and>
   map fst (found_transactions
     (try_hit [''0xaa'', ''0xbb''] [] 1 (Inr (JObj (one_pending ''0x01'' ''8'' ''0xbb'')))
        init_search_state)) = [''0xbb'']"
  by code_simp

section \<open>Properties of the classifier\<close>

subsection \<open>Nonce gaps\<close>

lemma has_all_prior_iff:
  "has_all_prior S nn n \<longleftrightarrow> (\<forall>k. nn \<le> k \<and> k < max nn n \<longrightarrow> k \<in> S)"
  by (auto simp: has_all_prior_def py_range_def list_all_iff)

lemma is_nonce_gap_iff:
  "is_nonce_gap S nn n \<longleftrightarrow> nn < n \<and> (\<exists>k. nn \<le> k \<and> k < n \<and> k \<notin> S)"
  by (auto simp: is_nonce_gap_def has_all_prior_iff max_def)

text \<open>
  Claim C4.  An entry whose nonce is above the sender's next nonce, with some nonce
  from the next nonce up to (not including) its own missing from the sender's pending
  set, gets the reason \<^verbatim>\<open>nonce_gap\<close>, whatever its summary holds: the summary is not
  read.  The next nonce is what \<^const>\<open>get_next_nonce\<close> returns for the sender.
\<close>

theorem nonce_gap_takes_precedence:
  assumes "get_next_nonce env addr (cache, log) = (nn, cache', log')"
    and "nn < n"
    and "\<exists>k. nn \<le> k \<and> k < n \<and> k \<notin> pending_for pn addr"
  shows "classify_entry env wei_floor pn (addr, n, summary) (cache, log) = Inr (NonceGap, cache', log')"
  using assms by (simp add: classify_entry_def is_nonce_gap_iff)

lemma hex3: "hex_to_int (JStr ''0x3'') = Inr 3" by code_simp

theorem nonce_gap_takes_precedence_witness:
  "get_next_nonce (\<lambda>k r. Inr (JStr ''0x3'')) ''0xa'' (Map.empty, []) =
     (3, [''0xa'' \<mapsto> 3], [GetTransactionCount ''0xa'']) \<and>
   (3::int) < 5 \<and>
   (\<exists>k. (3::int) \<le> k \<and> k < 5 \<and> k \<notin> pending_for [''0xa'' \<mapsto> {3}] ''0xa'') \<and>
   classify_entry (\<lambda>k r. Inr (JStr ''0x3'')) 1000000000 [''0xa'' \<mapsto> {3}]
       (''0xa'', 5, ''gasPrice: 1 feeCap: 1'') (Map.empty, []) =
     Inr (NonceGap, [''0xa'' \<mapsto> 3], [GetTransactionCount ''0xa''])"
proof -
  have a: "get_next_nonce (\<lambda>k r. Inr (JStr ''0x3'')) ''0xa'' (Map.empty, []) =
     (3, [''0xa'' \<mapsto> 3], [GetTransactionCount ''0xa''])"
    by (simp add: get_next_nonce_def rpc_call_def hex3 del: hex_to_int.simps)
  have b: "(3::int) < 5" by simp
  have c: "\<exists>k. (3::int) \<le> k \<and> k < 5 \<and> k \<notin> pending_for [''0xa'' \<mapsto> {3}] ''0xa''"
    by (rule exI[of _ 4]) (simp add: pending_for_def)
  have d: "classify_entry (\<lambda>k r. Inr (JStr ''0x3'')) 1000000000 [''0xa'' \<mapsto> {3}]
       (''0xa'', 5, ''gasPrice: 1 feeCap: 1'') (Map.empty, []) =
     Inr (NonceGap, [''0xa'' \<mapsto> 3], [GetTransactionCount ''0xa''])"
    by (rule nonce_gap_takes_precedence[OF a b c])
  from a b c d show ?thesis by blast
qed

text \<open>
  A pattern's group starts with a digit, so what \<^const>\<open>parse_int_from_patterns\<close> finds is
  never negative.
\<close>

lemma strip_with_head:
  assumes "s \<noteq> []" and "\<not> P (hd s)"
  shows "strip_with P s \<noteq> [] \<and> hd (strip_with P s) = hd s"
proof -
  obtain c cs where s: "s = c # cs" using assms(1) by (cases s) auto
  with assms(2) have d: "dropWhile P s = c # cs" by simp
  have "rev (dropWhile P (rev (c # cs))) = c # rev (dropWhile P (rev cs))"
  proof (cases "\<forall>x\<in>set cs. P x")
    case True
    then have "dropWhile P (rev cs) = []" by simp
    moreover from True assms(2) s have "dropWhile P (rev cs @ [c]) = [c]"
      by (simp add: dropWhile_append)
    ultimately show ?thesis by simp
  next
    case False
    then have "dropWhile P (rev cs @ [c]) = dropWhile P (rev cs) @ [c]"
      by (auto simp: dropWhile_append)
    then show ?thesis by simp
  qed
  with d s show ?thesis by (simp add: strip_with_def)
qed

lemma py_int_nonneg:
  assumes "s \<noteq> []" and "is_digit (hd s)" and "py_int b s = Some v"
  shows "0 \<le> v"
proof -
  from assms(2) have ns: "\<not> is_int_space (hd s)" and sg: "hd s \<noteq> CHR ''+''" "hd s \<noteq> CHR ''-''"
    by (auto simp: is_digit_def is_int_space_def)
  from strip_with_head[of s is_int_space, OF assms(1) ns] obtain c cs
    where st: "strip_with is_int_space s = c # cs" and c: "c = hd s"
    by (cases "strip_with is_int_space s") auto
  with sg have "split_sign (strip_with is_int_space s) = (False, strip_with is_int_space s)"
    by (simp add: split_sign_def)
  with assms(3) show ?thesis
    by (auto simp: py_int_def Let_def split: prod.splits option.splits if_splits)
qed

lemma match_digits_head: "match_digits t = Some g \<Longrightarrow> g \<noteq> [] \<and> is_digit (hd g)"
  by (cases t) (auto simp: match_digits_def Let_def split: if_splits)

lemma match_number_head: "match_number t = Some g \<Longrightarrow> g \<noteq> [] \<and> is_digit (hd g)"
  by (auto simp: match_number_def is_digit_def split: list.splits if_splits dest: match_digits_head)

lemma match_field_head: "match_field name t = Some g \<Longrightarrow> g \<noteq> [] \<and> is_digit (hd g)"
  by (auto simp: match_field_def split: list.splits if_splits dest: match_number_head)

lemma regex_search_head: "regex_search name t = Some g \<Longrightarrow> g \<noteq> [] \<and> is_digit (hd g)"
  by (induction t) (auto split: option.splits dest: match_field_head)

lemma parse_int_from_patterns_nonneg:
  "parse_int_from_patterns t pats = Inr (Some v) \<Longrightarrow> 0 \<le> v"
proof (induction pats)
  case Nil
  then show ?case by simp
next
  case (Cons pat pats)
  show ?case
  proof (cases "regex_search pat t")
    case None
    with Cons show ?thesis by simp
  next
    case (Some g)
    then have g: "g \<noteq> []" "is_digit (hd g)" using regex_search_head by blast+
    from Cons.prems Some obtain b where "py_int b g = Some v"
      by (auto split: sum.splits option.splits if_splits)
    with g show ?thesis by (rule py_int_nonneg)
  qed
qed

subsection \<open>Pricing\<close>

lemma classify_entry_no_gap:
  assumes "get_next_nonce env addr (cache, log) = (nn, cache', log1)"
    and "\<not> is_nonce_gap (pending_for pn addr) nn n"
  shows "classify_entry env wei_floor pn (addr, n, summary) (cache, log) =
           (case infer_pricing env wei_floor summary log1 of
              Inl e \<Rightarrow> Inl e
            | Inr (r, log2) \<Rightarrow> Inr (r, cache', log2))"
  using assms by (simp add: classify_entry_def)

text \<open>
  Claim C2, as amended.  For a queued entry with no nonce gap whose three fields are
  read without an exception: the reason is \<^verbatim>\<open>below_floor\<close> exactly when a legacy gas
  price is found and is below the floor; it is \<^verbatim>\<open>under_basefee\<close> exactly when no legacy
  gas price is found, a fee cap is found and it is below the base fee of the pending
  block at that moment; otherwise it is \<^verbatim>\<open>unknown\<close>.  So a fee cap is looked at only
  when the summary shows no legacy gas price.
\<close>

theorem pricing_fallback_chain:
  assumes nn: "get_next_nonce env addr (cache, log) = (nn, cache', log1)"
    and nogap: "\<not> is_nonce_gap (pending_for pn addr) nn n"
    and fee: "parse_int_from_patterns summary INSPECT_FEE_REGEXES = Inr fee_cap"
    and tip: "parse_int_from_patterns summary INSPECT_TIP_REGEXES = Inr tip_cap"
    and gas: "parse_int_from_patterns summary INSPECT_GASPRICE_REGEXES = Inr gas_price"
    and bf: "get_pending_basefee_wei env log1 = (basefee_now, log2)"
  shows "\<exists>r log'. classify_entry env wei_floor pn (addr, n, summary) (cache, log) = Inr (r, cache', log') \<and>
     (r = BelowFloor \<longleftrightarrow> (\<exists>gp. gas_price = Some gp \<and> gp < wei_floor)) \<and>
     (r = UnderBasefee \<longleftrightarrow> gas_price = None \<and> (\<exists>fc. fee_cap = Some fc \<and> fc < basefee_now)) \<and>
     (r = Unknown \<longleftrightarrow> \<not> (\<exists>gp. gas_price = Some gp \<and> gp < wei_floor) \<and>
                      \<not> (gas_price = None \<and> (\<exists>fc. fee_cap = Some fc \<and> fc < basefee_now)))"
proof (cases gas_price)
  case (Some gp)
  with gas have "0 \<le> gp" by (auto dest: parse_int_from_patterns_nonneg)
  then have "gp < max wei_floor 0 \<longleftrightarrow> gp < wei_floor" by auto
  with Some show ?thesis
    by (simp add: classify_entry_no_gap[OF nn nogap] infer_pricing_def fee tip gas)
next
  case None
  then show ?thesis
    by (cases fee_cap) (simp_all add: classify_entry_no_gap[OF nn nogap] infer_pricing_def fee tip gas bf)
qed

lemma hex0: "hex_to_int (JStr ''0x0'') = Inr 0" by code_simp

lemma hex14: "hex_to_int (JStr ''0x14'') = Inr 20" by code_simp

theorem pricing_fallback_chain_witness:
  "get_next_nonce env_basefee_20 ''0xa'' (Map.empty, []) = (0, [''0xa'' \<mapsto> 0], [GetTransactionCount ''0xa'']) \<and>
   \<not> is_nonce_gap (pending_for Map.empty ''0xa'') 0 0 \<and>
   parse_int_from_patterns ''feeCap: 10'' INSPECT_FEE_REGEXES = Inr (Some 10) \<and>
   parse_int_from_patterns ''feeCap: 10'' INSPECT_TIP_REGEXES = Inr None \<and>
   parse_int_from_patterns ''feeCap: 10'' INSPECT_GASPRICE_REGEXES = Inr None \<and>
   get_pending_basefee_wei env_basefee_20 [GetTransactionCount ''0xa''] =
     (20, [GetTransactionCount ''0xa'', GetBlockPending]) \<and>
   (\<exists>log'. classify_entry env_basefee_20 1000000000 Map.empty (''0xa'', 0, ''feeCap: 10'') (Map.empty, []) =
            Inr (UnderBasefee, [''0xa'' \<mapsto> 0], log'))"
proof -
  have a: "get_next_nonce env_basefee_20 ''0xa'' (Map.empty, []) = (0, [''0xa'' \<mapsto> 0], [GetTransactionCount ''0xa''])"
    by (simp add: get_next_nonce_def rpc_call_def env_basefee_20_def hex0 del: hex_to_int.simps)
  have b: "\<not> is_nonce_gap (pending_for Map.empty ''0xa'') 0 0" by (simp add: is_nonce_gap_def)
  have c: "parse_int_from_patterns ''feeCap: 10'' INSPECT_FEE_REGEXES = Inr (Some 10)" by code_simp
  have d: "parse_int_from_patterns ''feeCap: 10'' INSPECT_TIP_REGEXES = Inr None" by code_simp
  have e: "parse_int_from_patterns ''feeCap: 10'' INSPECT_GASPRICE_REGEXES = Inr None" by code_simp
  have f: "get_pending_basefee_wei env_basefee_20 [GetTransactionCount ''0xa''] =
     (20, [GetTransactionCount ''0xa'', GetBlockPending])"
    by (simp add: get_pending_basefee_wei_def rpc_call_def env_basefee_20_def dict_get_default_def hex14
             del: hex_to_int.simps)
  from pricing_fallback_chain[OF a b c d e f, of 1000000000]
  have "\<exists>log'. classify_entry env_basefee_20 1000000000 Map.empty (''0xa'', 0, ''feeCap: 10'') (Map.empty, []) =
            Inr (UnderBasefee, [''0xa'' \<mapsto> 0], log')"
    by auto
  with a b c d e f show ?thesis by blast
qed

text \<open>
  Claim C2 as stated fails: a summary with a legacy gas price of 7 (floor 5) and a fee
  cap of 10, at base fee 20 and with no nonce gap, is classified \<^verbatim>\<open>unknown\<close>, where the
  stated chain gives \<^verbatim>\<open>under_basefee\<close>.
\<close>

theorem legacy_price_hides_fee_cap:
  "parse_int_from_patterns ''gasPrice: 7 feeCap: 10'' INSPECT_GASPRICE_REGEXES = Inr (Some 7) \<and>
   parse_int_from_patterns ''gasPrice: 7 feeCap: 10'' INSPECT_FEE_REGEXES = Inr (Some 10) \<and>
   fst (get_pending_basefee_wei env_basefee_20 [GetTransactionCount ''0xa'']) = 20 \<and>
   \<not> is_nonce_gap (pending_for Map.empty ''0xa'') 0 0 \<and>
   map_sum id fst (classify_entry env_basefee_20 5 Map.empty
      (''0xa'', 0, ''gasPrice: 7 feeCap: 10'') (Map.empty, [])) = Inr Unknown"
  by code_simp

text \<open>
  Claim C3, as amended.  A failed next-nonce query is taken as next nonce 0, which is
  cached.  The entry then gets \<^verbatim>\<open>nonce_gap\<close> when its nonce is positive and some nonce
  from 0 up to (not including) it is missing from the sender's pending set, whatever its
  summary holds.  Otherwise its outcome is that of the pricing chain
  (\<^const>\<open>infer_pricing\<close>): if the three fee fields of its summary are read without an
  exception, the classifier goes on and the reason is not \<^verbatim>\<open>nonce_gap\<close>.  A failed base-fee query is taken as base fee 0: an entry
  with no nonce gap whose summary (its fee fields read without an exception) shows a fee
  cap and no legacy gas price gets \<^verbatim>\<open>unknown\<close>, and the classifier goes on.
\<close>

theorem failed_lookups_default_to_zero:
  "(cache addr = None \<and> (\<exists>e. env (length log) (GetTransactionCount addr) = Inl e) \<longrightarrow>
      get_next_nonce env addr (cache, log) =
        (0, cache(addr \<mapsto> 0), log @ [GetTransactionCount addr]) \<and>
      (0 < n \<and> (\<exists>k. 0 \<le> k \<and> k < n \<and> k \<notin> pending_for pn addr) \<longrightarrow>
         classify_entry env wei_floor pn (addr, n, summary) (cache, log) =
           Inr (NonceGap, cache(addr \<mapsto> 0), log @ [GetTransactionCount addr])) \<and>
      (\<not> (0 < n \<and> (\<exists>k. 0 \<le> k \<and> k < n \<and> k \<notin> pending_for pn addr)) \<longrightarrow>
         classify_entry env wei_floor pn (addr, n, summary) (cache, log) =
           (case infer_pricing env wei_floor summary (log @ [GetTransactionCount addr]) of
              Inl e \<Rightarrow> Inl e
            | Inr (r, log2) \<Rightarrow> Inr (r, cache(addr \<mapsto> 0), log2))) \<and>
      (\<not> (0 < n \<and> (\<exists>k. 0 \<le> k \<and> k < n \<and> k \<notin> pending_for pn addr)) \<and>
       (\<exists>fee_cap tip_cap gas_price.
           parse_int_from_patterns summary INSPECT_FEE_REGEXES = Inr fee_cap \<and>
           parse_int_from_patterns summary INSPECT_TIP_REGEXES = Inr tip_cap \<and>
           parse_int_from_patterns summary INSPECT_GASPRICE_REGEXES = Inr gas_price) \<longrightarrow>
         (\<exists>r log'. classify_entry env wei_floor pn (addr, n, summary) (cache, log) =
                      Inr (r, cache(addr \<mapsto> 0), log') \<and> r \<noteq> NonceGap))) \<and>
   (\<forall>nn cache' log1 fc tip_cap.
       get_next_nonce env addr (cache, log) = (nn, cache', log1) \<and>
       \<not> is_nonce_gap (pending_for pn addr) nn n \<and>
       parse_int_from_patterns summary INSPECT_FEE_REGEXES = Inr (Some fc) \<and>
       parse_int_from_patterns summary INSPECT_TIP_REGEXES = Inr tip_cap \<and>
       parse_int_from_patterns summary INSPECT_GASPRICE_REGEXES = Inr None \<and>
       (\<exists>e. env (length log1) GetBlockPending = Inl e) \<longrightarrow>
       classify_entry env wei_floor pn (addr, n, summary) (cache, log) =
         Inr (Unknown, cache', log1 @ [GetBlockPending]))"
proof (intro conjI impI allI)
  assume h: "cache addr = None \<and> (\<exists>e. env (length log) (GetTransactionCount addr) = Inl e)"
  then show g: "get_next_nonce env addr (cache, log) =
      (0, cache(addr \<mapsto> 0), log @ [GetTransactionCount addr])"
    by (auto simp: get_next_nonce_def rpc_call_def)
  {
    assume "0 < n \<and> (\<exists>k. 0 \<le> k \<and> k < n \<and> k \<notin> pending_for pn addr)"
    then show "classify_entry env wei_floor pn (addr, n, summary) (cache, log) =
           Inr (NonceGap, cache(addr \<mapsto> 0), log @ [GetTransactionCount addr])"
      by (simp add: classify_entry_def g is_nonce_gap_iff)
  }
  {
    assume "\<not> (0 < n \<and> (\<exists>k. 0 \<le> k \<and> k < n \<and> k \<notin> pending_for pn addr))"
    then have ng: "\<not> is_nonce_gap (pending_for pn addr) 0 n" by (simp add: is_nonce_gap_iff)
    show "classify_entry env wei_floor pn (addr, n, summary) (cache, log) =
           (case infer_pricing env wei_floor summary (log @ [GetTransactionCount addr]) of
              Inl e \<Rightarrow> Inl e
            | Inr (r, log2) \<Rightarrow> Inr (r, cache(addr \<mapsto> 0), log2))"
      by (rule classify_entry_no_gap[OF g ng])
  }
  {
    assume a: "\<not> (0 < n \<and> (\<exists>k. 0 \<le> k \<and> k < n \<and> k \<notin> pending_for pn addr)) \<and>
       (\<exists>fee_cap tip_cap gas_price.
           parse_int_from_patterns summary INSPECT_FEE_REGEXES = Inr fee_cap \<and>
           parse_int_from_patterns summary INSPECT_TIP_REGEXES = Inr tip_cap \<and>
           parse_int_from_patterns summary INSPECT_GASPRICE_REGEXES = Inr gas_price)"
    then obtain fee_cap tip_cap gas_price where
      fee: "parse_int_from_patterns summary INSPECT_FEE_REGEXES = Inr fee_cap" and
      tip: "parse_int_from_patterns summary INSPECT_TIP_REGEXES = Inr tip_cap" and
      gas: "parse_int_from_patterns summary INSPECT_GASPRICE_REGEXES = Inr gas_price"
      by blast
    from a have ng: "\<not> is_nonce_gap (pending_for pn addr) 0 n" by (simp add: is_nonce_gap_iff)
    obtain b l0 where bf: "get_pending_basefee_wei env (log @ [GetTransactionCount addr]) = (b, l0)"
      by (cases "get_pending_basefee_wei env (log @ [GetTransactionCount addr])")
    have "\<exists>r l. infer_pricing env wei_floor summary (log @ [GetTransactionCount addr]) = Inr (r, l) \<and>
            r \<noteq> NonceGap"
      by (cases gas_price; cases fee_cap) (simp_all add: infer_pricing_def fee tip gas bf)
    then obtain r l where
      p: "infer_pricing env wei_floor summary (log @ [GetTransactionCount addr]) = Inr (r, l)"
      and rn: "r \<noteq> NonceGap" by blast
    show "\<exists>r log'. classify_entry env wei_floor pn (addr, n, summary) (cache, log) =
                      Inr (r, cache(addr \<mapsto> 0), log') \<and> r \<noteq> NonceGap"
      using p rn by (simp add: classify_entry_no_gap[OF g ng])
  }
next
  fix nn cache' log1 fc tip_cap
  assume h: "get_next_nonce env addr (cache, log) = (nn, cache', log1) \<and>
       \<not> is_nonce_gap (pending_for pn addr) nn n \<and>
       parse_int_from_patterns summary INSPECT_FEE_REGEXES = Inr (Some fc) \<and>
       parse_int_from_patterns summary INSPECT_TIP_REGEXES = Inr tip_cap \<and>
       parse_int_from_patterns summary INSPECT_GASPRICE_REGEXES = Inr None \<and>
       (\<exists>e. env (length log1) GetBlockPending = Inl e)"
  then have "0 \<le> fc" by (auto dest: parse_int_from_patterns_nonneg)
  moreover from h have "get_pending_basefee_wei env log1 = (0, log1 @ [GetBlockPending])"
    by (auto simp: get_pending_basefee_wei_def rpc_call_def)
  ultimately show "classify_entry env wei_floor pn (addr, n, summary) (cache, log) =
          Inr (Unknown, cache', log1 @ [GetBlockPending])"
    using h by (simp add: classify_entry_def infer_pricing_def)
qed

theorem failed_lookups_default_to_zero_witness:
  "env_down (length ([] :: rpc_request list)) (GetTransactionCount ''0xa'') = Inl RpcError \<and>
   get_next_nonce env_down ''0xa'' (Map.empty, []) =
     (0, [''0xa'' \<mapsto> 0], [GetTransactionCount ''0xa'']) \<and>
   (\<exists>k. (0::int) \<le> k \<and> k < 5 \<and> k \<notin> pending_for Map.empty ''0xa'') \<and>
   classify_entry env_down 5 Map.empty (''0xa'', 5, ''tip: 0X2'') (Map.empty, []) =
     Inr (NonceGap, [''0xa'' \<mapsto> 0], [GetTransactionCount ''0xa'']) \<and>
   parse_int_from_patterns ''feeCap: 10'' INSPECT_FEE_REGEXES = Inr (Some 10) \<and>
   parse_int_from_patterns ''feeCap: 10'' INSPECT_TIP_REGEXES = Inr None \<and>
   parse_int_from_patterns ''feeCap: 10'' INSPECT_GASPRICE_REGEXES = Inr None \<and>
   (\<exists>r log'. classify_entry env_down 5 Map.empty (''0xb'', 0, ''feeCap: 10'') (Map.empty, []) =
              Inr (r, [''0xb'' \<mapsto> 0], log') \<and> r \<noteq> NonceGap) \<and>
   \<not> is_nonce_gap (pending_for Map.empty ''0xa'') 0 0 \<and>
   env_down (length [GetTransactionCount ''0xa'']) GetBlockPending = Inl RpcError \<and>
   classify_entry env_down 5 Map.empty (''0xa'', 0, ''feeCap: 10'') (Map.empty, []) =
     Inr (Unknown, [''0xa'' \<mapsto> 0], [GetTransactionCount ''0xa'', GetBlockPending])"
proof -
  have c: "parse_int_from_patterns ''feeCap: 10'' INSPECT_FEE_REGEXES = Inr (Some 10)" by code_simp
  have d: "parse_int_from_patterns ''feeCap: 10'' INSPECT_TIP_REGEXES = Inr None" by code_simp
  have e: "parse_int_from_patterns ''feeCap: 10'' INSPECT_GASPRICE_REGEXES = Inr None" by code_simp
  have f: "env_down (length ([] :: rpc_request list)) (GetTransactionCount a) = Inl RpcError" for a
    by (simp add: env_down_def)
  have pre: "(Map.empty :: string \<rightharpoonup> int) a = None \<and>
      (\<exists>e. env_down (length ([] :: rpc_request list)) (GetTransactionCount a) = Inl e)" for a
    by (simp add: env_down_def)
  have h: "\<not> is_nonce_gap (pending_for Map.empty ''0xa'') 0 0" by (simp add: is_nonce_gap_def)
  have i: "env_down (length [GetTransactionCount ''0xa'']) GetBlockPending = Inl RpcError"
    by (simp add: env_down_def)
  have k: "\<exists>k. (0::int) \<le> k \<and> k < 5 \<and> k \<notin> pending_for Map.empty ''0xa''"
    by (rule exI[of _ 0]) (simp add: pending_for_def)
  then have k5: "(0::int) < 5 \<and> (\<exists>k. (0::int) \<le> k \<and> k < 5 \<and> k \<notin> pending_for Map.empty ''0xa'')"
    by simp
  have nog: "\<not> ((0::int) < 0 \<and> (\<exists>k. (0::int) \<le> k \<and> k < 0 \<and> k \<notin> pending_for Map.empty a))" for a
    by simp
  note t1 = failed_lookups_default_to_zero[where cache=Map.empty and addr="''0xa''" and env=env_down
      and log="[]" and n=5 and pn=Map.empty and wei_floor=5 and summary="''tip: 0X2''"]
  note t2 = failed_lookups_default_to_zero[where cache=Map.empty and addr="''0xb''" and env=env_down
      and log="[]" and n=0 and pn=Map.empty and wei_floor=5 and summary="''feeCap: 10''"]
  note t3 = failed_lookups_default_to_zero[where cache=Map.empty and addr="''0xa''" and env=env_down
      and log="[]" and n=0 and pn=Map.empty and wei_floor=5 and summary="''feeCap: 10''"]
  from t1 pre[of "''0xa''"]
  have g0: "get_next_nonce env_down ''0xa'' (Map.empty, []) =
      (0, (Map.empty :: string \<rightharpoonup> int)(''0xa'' \<mapsto> 0), [] @ [GetTransactionCount ''0xa''])"
    by blast
  then have g: "get_next_nonce env_down ''0xa'' (Map.empty, []) =
     (0, [''0xa'' \<mapsto> 0], [GetTransactionCount ''0xa''])"
    by (simp only: append_Nil)
  from t1 pre[of "''0xa''"] k5
  have "classify_entry env_down 5 Map.empty (''0xa'', 5, ''tip: 0X2'') (Map.empty, []) =
     Inr (NonceGap, (Map.empty :: string \<rightharpoonup> int)(''0xa'' \<mapsto> 0), [] @ [GetTransactionCount ''0xa''])"
    by blast
  then have p1: "classify_entry env_down 5 Map.empty (''0xa'', 5, ''tip: 0X2'') (Map.empty, []) =
     Inr (NonceGap, [''0xa'' \<mapsto> 0], [GetTransactionCount ''0xa''])"
    by (simp only: append_Nil)
  from t2 pre[of "''0xb''"] nog[of "''0xb''"] c d e
  have p2: "\<exists>r log'. classify_entry env_down 5 Map.empty (''0xb'', 0, ''feeCap: 10'') (Map.empty, []) =
              Inr (r, [''0xb'' \<mapsto> 0], log') \<and> r \<noteq> NonceGap"
    by blast
  from t3 g h i c d e
  have "classify_entry env_down 5 Map.empty (''0xa'', 0, ''feeCap: 10'') (Map.empty, []) =
     Inr (Unknown, [''0xa'' \<mapsto> 0], [GetTransactionCount ''0xa''] @ [GetBlockPending])"
    by blast
  then have p3: "classify_entry env_down 5 Map.empty (''0xa'', 0, ''feeCap: 10'') (Map.empty, []) =
     Inr (Unknown, [''0xa'' \<mapsto> 0], [GetTransactionCount ''0xa'', GetBlockPending])"
    by (simp only: append_Cons append_Nil)
  from f[of "''0xa''"] g k p1 c d e p2 h i p3 show ?thesis by blast
qed

text \<open>
  What the amended claim leaves out: a summary field written with an uppercase \<^verbatim>\<open>0X\<close> is
  matched by the pattern but refused by \<^const>\<open>hex_to_int\<close>, and that exception ends the
  classifier, with or without a failed lookup.
\<close>

lemma uppercase_hex_field_ends_classifier:
  "map_sum id fst
     (classify_entry env_down 5 Map.empty (''0xa'', 0, ''tip: 0X2'') (Map.empty, [])) = Inl ValueError"
  by code_simp

text \<open>
  Claim C3 as stated fails: with every query failing, the entry with nonce 5 of a sender
  with no pending transactions gets \<^verbatim>\<open>nonce_gap\<close>, not \<^verbatim>\<open>unknown\<close>.
\<close>

theorem failed_nonce_lookup_gives_nonce_gap:
  "env_down 0 (GetTransactionCount ''0xa'') = Inl RpcError \<and>
   map_sum id fst (classify_entry env_down 1000000000 Map.empty (''0xa'', 5, ''feeCap: 10'') (Map.empty, []))
     = Inr NonceGap"
  by code_simp

section \<open>Properties of the consolidated table\<close>

lemma sorted_reverse_desc:
  "sorted_wrt (\<lambda>a b. f b \<le> f a) (sorted_reverse f xs)"
proof -
  have "sorted (map f (sort_key f (rev xs)))" by (rule sorted_sort_key)
  then have "sorted_wrt (\<lambda>a b. f a \<le> f b) (sort_key f (rev xs))" by (simp add: sorted_map)
  then show ?thesis unfolding sorted_reverse_def by (simp add: sorted_wrt_rev)
qed

lemma slice_to_take: "\<exists>k. slice_to n xs = take k xs"
  by (auto simp: slice_to_def)

lemma consolidated_desc:
  "sorted_wrt (\<lambda>a b. row_key b \<le> row_key a) (consolidated limit rows)"
proof -
  obtain k where "consolidated limit rows = take k (sorted_reverse row_key rows)"
    unfolding consolidated_def using slice_to_take by blast
  then show ?thesis using sorted_reverse_desc[of row_key rows] by simp
qed

lemma row_key_le:
  "row_key a \<le> row_key b \<longleftrightarrow>
     queued_count a < queued_count b \<or>
     (queued_count a = queued_count b \<and> pending_count a \<le> pending_count b)"
  by (auto simp: row_key_def less_eq_prod_def)

lemma mset_sorted_reverse: "mset (sorted_reverse f xs) = mset xs"
  by (simp add: sorted_reverse_def)

text \<open>
  The order of \<^const>\<open>sorted_reverse\<close> in full: it is the stable sort by the negated key,
  so rows with equal keys keep the order they had.
\<close>

lemma sorted_reverse_stable:
  fixes f :: "'a \<Rightarrow> nat \<times> nat"
  shows "sorted_reverse f xs = sort_key (\<lambda>x. (- int (fst (f x)), - int (snd (f x)))) xs"
proof -
  let ?g = "\<lambda>x. (- int (fst (f x)), - int (snd (f x)))"
  have le: "?g a \<le> ?g b \<longleftrightarrow> f b \<le> f a" for a b
    by (cases "f a"; cases "f b") (auto simp: less_eq_prod_def)
  have fe: "(\<lambda>x. ?g k = ?g x) = (\<lambda>x. f x = f k)" for k
    by (auto simp: fun_eq_iff prod_eq_iff)
  show ?thesis
  proof (rule properties_for_sort_key[symmetric])
    show "mset (sorted_reverse f xs) = mset xs" by (rule mset_sorted_reverse)
  next
    fix k assume "k \<in> set (sorted_reverse f xs)"
    have "filter (\<lambda>x. ?g k = ?g x) (sorted_reverse f xs)
            = rev (filter (\<lambda>x. f x = f k) (sort_key f (rev xs)))"
      unfolding fe by (simp only: sorted_reverse_def rev_filter)
    also have "\<dots> = rev (filter (\<lambda>x. f x = f k) (rev xs))"
      by (simp only: sort_key_stable)
    also have "\<dots> = filter (\<lambda>x. ?g k = ?g x) xs"
      unfolding fe by (simp only: rev_filter rev_rev_ident)
    finally show "filter (\<lambda>x. ?g k = ?g x) (sorted_reverse f xs) = filter (\<lambda>x. ?g k = ?g x) xs" .
  next
    have "sorted_wrt (\<lambda>a b. ?g a \<le> ?g b) (sorted_reverse f xs)"
      using sorted_reverse_desc[of f xs] by (simp only: le)
    then show "sorted (map ?g (sorted_reverse f xs))" by (simp add: sorted_map)
  qed
qed

text \<open>
  Claim C9.  The consolidated table is the list of rows in descending order of the pair
  (\<^verbatim>\<open>queued_count\<close>, \<^verbatim>\<open>pending_count\<close>), cut at the limit.  In the table a later row never
  has the larger key: its \<^verbatim>\<open>queued_count\<close> is smaller, or equal with a \<^verbatim>\<open>pending_count\<close>
  that is not larger.  The table and the rows left out are together the rows of the
  input, and no row left out has a larger key than a row of the table.  For a limit that
  is not negative the table has \<open>min limit (number of rows)\<close> rows and is the first
  \<open>limit\<close> rows of the stable sort of the input by the negated key (rows with equal
  keys keep their order); for a negative limit \<open>- n\<close> it is that sort without its last
  \<open>n\<close> rows.
\<close>

theorem consolidated_sorted_and_bounded:
  "(\<forall>i j. i < j \<and> j < length (consolidated limit rows) \<longrightarrow>
       queued_count (consolidated limit rows ! j) < queued_count (consolidated limit rows ! i) \<or>
       (queued_count (consolidated limit rows ! j) = queued_count (consolidated limit rows ! i) \<and>
        pending_count (consolidated limit rows ! j) \<le> pending_count (consolidated limit rows ! i))) \<and>
   (\<exists>left_out.
       mset (consolidated limit rows @ left_out) = mset rows \<and>
       (\<forall>r \<in> set left_out. \<forall>r' \<in> set (consolidated limit rows).
           queued_count r < queued_count r' \<or>
           (queued_count r = queued_count r' \<and> pending_count r \<le> pending_count r'))) \<and>
   (0 \<le> limit \<longrightarrow> length (consolidated limit rows) = min (nat limit) (length rows)) \<and>
   consolidated limit rows =
     take (if 0 \<le> limit then nat limit else length rows - nat (- limit))
       (sort_key (\<lambda>r. (- int (queued_count r), - int (pending_count r))) rows)"
proof (intro conjI allI impI)
  fix i j
  assume "i < j \<and> j < length (consolidated limit rows)"
  with consolidated_desc[of limit rows]
  have "row_key (consolidated limit rows ! j) \<le> row_key (consolidated limit rows ! i)"
    by (simp add: sorted_wrt_iff_nth_less)
  then show "queued_count (consolidated limit rows ! j) < queued_count (consolidated limit rows ! i) \<or>
       (queued_count (consolidated limit rows ! j) = queued_count (consolidated limit rows ! i) \<and>
        pending_count (consolidated limit rows ! j) \<le> pending_count (consolidated limit rows ! i))"
    by (simp only: row_key_le)
next
  let ?S = "sorted_reverse row_key rows"
  obtain k where k: "consolidated limit rows = take k ?S"
    unfolding consolidated_def using slice_to_take by blast
  have "sorted_wrt (\<lambda>a b. row_key b \<le> row_key a) (take k ?S @ drop k ?S)"
    using sorted_reverse_desc[of row_key rows] by simp
  then have "\<forall>r \<in> set (drop k ?S). \<forall>r' \<in> set (take k ?S). row_key r \<le> row_key r'"
    unfolding sorted_wrt_append by blast
  then have "\<forall>r \<in> set (drop k ?S). \<forall>r' \<in> set (consolidated limit rows).
           queued_count r < queued_count r' \<or>
           (queued_count r = queued_count r' \<and> pending_count r \<le> pending_count r')"
    unfolding k by (simp only: row_key_le)
  moreover have "mset (consolidated limit rows @ drop k ?S) = mset rows"
    unfolding k by (simp only: append_take_drop_id mset_sorted_reverse)
  ultimately show "\<exists>left_out.
       mset (consolidated limit rows @ left_out) = mset rows \<and>
       (\<forall>r \<in> set left_out. \<forall>r' \<in> set (consolidated limit rows).
           queued_count r < queued_count r' \<or>
           (queued_count r = queued_count r' \<and> pending_count r \<le> pending_count r'))"
    by blast
next
  assume "0 \<le> limit"
  then show "length (consolidated limit rows) = min (nat limit) (length rows)"
    by (simp add: consolidated_def slice_to_def sorted_reverse_def min_def)
next
  let ?k = "\<lambda>r. (- int (queued_count r), - int (pending_count r))"
  have ke: "(\<lambda>r. (- int (fst (row_key r)), - int (snd (row_key r)))) = ?k"
    by (simp add: row_key_def)
  have "sorted_reverse row_key rows = sort_key ?k rows"
    unfolding ke[symmetric] by (rule sorted_reverse_stable)
  moreover have "length (sorted_reverse row_key rows) = length rows"
    by (simp add: sorted_reverse_def)
  ultimately show "consolidated limit rows =
     take (if 0 \<le> limit then nat limit else length rows - nat (- limit)) (sort_key ?k rows)"
    by (simp only: consolidated_def slice_to_def if_distrib[of "\<lambda>n. take n xs" for xs])
qed

text \<open>
  The scenario of the specification: sender \<^verbatim>\<open>0x01\<close> with 3 queued and 1 pending, sender
  \<^verbatim>\<open>0x02\<close> with 3 queued and 5 pending.  With limit 10 the table shows \<^verbatim>\<open>0x02\<close> first;
  with limit 1 it shows \<^verbatim>\<open>0x02\<close> only.
\<close>

theorem consolidated_sorted_and_bounded_witness:
  "(0::nat) < 1 \<and> 1 < length (consolidated 10 [sender_row ''0x01'' 3 1, sender_row ''0x02'' 3 5]) \<and>
   (queued_count (consolidated 10 [sender_row ''0x01'' 3 1, sender_row ''0x02'' 3 5] ! 1)
      < queued_count (consolidated 10 [sender_row ''0x01'' 3 1, sender_row ''0x02'' 3 5] ! 0) \<or>
    (queued_count (consolidated 10 [sender_row ''0x01'' 3 1, sender_row ''0x02'' 3 5] ! 1)
       = queued_count (consolidated 10 [sender_row ''0x01'' 3 1, sender_row ''0x02'' 3 5] ! 0) \<and>
     pending_count (consolidated 10 [sender_row ''0x01'' 3 1, sender_row ''0x02'' 3 5] ! 1)
       \<le> pending_count (consolidated 10 [sender_row ''0x01'' 3 1, sender_row ''0x02'' 3 5] ! 0))) \<and>
   (0::int) \<le> 10 \<and>
   length (consolidated 10 [sender_row ''0x01'' 3 1, sender_row ''0x02'' 3 5]) = 2 \<and>
   map row_address (consolidated 10 [sender_row ''0x01'' 3 1, sender_row ''0x02'' 3 5])
     = [''0x02'', ''0x01''] \<and>
   (0::int) \<le> 1 \<and>
   length (consolidated 1 [sender_row ''0x01'' 3 1, sender_row ''0x02'' 3 5]) = 1 \<and>
   map row_address (consolidated 1 [sender_row ''0x01'' 3 1, sender_row ''0x02'' 3 5]) = [''0x02'']"
proof -
  let ?rows = "[sender_row ''0x01'' 3 1, sender_row ''0x02'' 3 5]"
  let ?out = "consolidated 10 ?rows"
  note t = consolidated_sorted_and_bounded[of 10 ?rows]
  note t1 = consolidated_sorted_and_bounded[of 1 ?rows]
  from t have "0 \<le> (10::int) \<longrightarrow> length ?out = min (nat 10) (length ?rows)" by (elim conjE)
  then have len: "length ?out = 2" by simp
  from t have "\<forall>i j. i < j \<and> j < length ?out \<longrightarrow>
       queued_count (?out ! j) < queued_count (?out ! i) \<or>
       (queued_count (?out ! j) = queued_count (?out ! i) \<and>
        pending_count (?out ! j) \<le> pending_count (?out ! i))" by (elim conjE)
  then have "(0::nat) < 1 \<and> 1 < length ?out \<longrightarrow>
       queued_count (?out ! 1) < queued_count (?out ! 0) \<or>
       (queued_count (?out ! 1) = queued_count (?out ! 0) \<and>
        pending_count (?out ! 1) \<le> pending_count (?out ! 0))" by blast
  with len have ord: "queued_count (?out ! 1) < queued_count (?out ! 0) \<or>
    (queued_count (?out ! 1) = queued_count (?out ! 0) \<and>
     pending_count (?out ! 1) \<le> pending_count (?out ! 0))"
    by simp
  from t1 have "0 \<le> (1::int) \<longrightarrow> length (consolidated 1 ?rows) = min (nat 1) (length ?rows)"
    by (elim conjE)
  then have len1: "length (consolidated 1 ?rows) = 1" by simp
  have names: "map row_address ?out = [''0x02'', ''0x01'']" by code_simp
  have names1: "map row_address (consolidated 1 ?rows) = [''0x02'']" by code_simp
  from len ord names len1 names1 show ?thesis by simp
qed

section \<open>Properties of the sampler\<close>

lemma poll_status_log:
  "snd (snd (poll_status env (mp, mq, log))) = log @ [TxpoolStatus]"
  by (simp add: poll_status_def rpc_call_def split: sum.splits json.splits)

lemma status_round_ok:
  assumes "sleeps_ok p"
  shows "\<exists>mp' mq'. status_round env p (mp, mq, log) = ((mp', mq', log @ [TxpoolStatus]), None)"
proof -
  obtain mp' mq' log' where s: "poll_status env (mp, mq, log) = (mp', mq', log')"
    by (cases "poll_status env (mp, mq, log)")
  with poll_status_log[of env mp mq log] have "log' = log @ [TxpoolStatus]" by simp
  with s show ?thesis
    by (simp add: status_round_def Let_def sleeps_ok_no_raise[OF assms])
qed

lemma status_rounds_ok:
  assumes "sleeps_ok p"
  shows "\<exists>mp' mq'. rounds k (status_round env p) (mp, mq, log) =
                      ((mp', mq', log @ replicate k TxpoolStatus), None)"
proof (induction k arbitrary: mp mq log)
  case 0
  then show ?case by simp
next
  case (Suc k)
  from status_round_ok[OF assms, where env=env and mp=mp and mq=mq and log=log] obtain mp1 mq1
    where r: "status_round env p (mp, mq, log) = ((mp1, mq1, log @ [TxpoolStatus]), None)" by blast
  from Suc[of mp1 mq1 "log @ [TxpoolStatus]"] r show ?case
    by (simp add: replicate_app_Cons_same)
qed

lemma get_pending_basefee_wei_log:
  "snd (get_pending_basefee_wei env log) = log @ [GetBlockPending]"
  by (simp add: get_pending_basefee_wei_def rpc_call_def split: sum.splits json.splits)

lemma inspect_round_ok:
  assumes "sleeps_ok p" and "inspect_answers_ok env"
  shows "\<exists>st'. inspect_round env p (st, log) =
                 ((st', log @ [GetBlockPending, TxpoolInspect]), None)"
proof -
  obtain b l1 where g: "get_pending_basefee_wei env log = (b, l1)"
    by (cases "get_pending_basefee_wei env log")
  with get_pending_basefee_wei_log[of env log] have l1: "l1 = log @ [GetBlockPending]" by simp
  show ?thesis
  proof (cases "env (length l1) TxpoolInspect")
    case (Inl e)
    then show ?thesis
      by (simp add: inspect_round_def g rpc_call_def l1 sleeps_ok_no_raise[OF assms(1)])
  next
    case (Inr r)
    with assms(2) obtain d where "or_empty r = JObj d" unfolding inspect_answers_ok_def by blast
    with Inr show ?thesis
      by (simp add: inspect_round_def g rpc_call_def l1 sleeps_ok_no_raise[OF assms(1)])
  qed
qed

lemma inspect_rounds_ok:
  assumes "sleeps_ok p" and "inspect_answers_ok env"
  shows "\<exists>st'. rounds k (inspect_round env p) (st, log) =
                 ((st', log @ concat (replicate k [GetBlockPending, TxpoolInspect])), None)"
proof (induction k arbitrary: st log)
  case 0
  then show ?case by simp
next
  case (Suc k)
  from inspect_round_ok[OF assms, where st=st and log=log] obtain s1
    where r: "inspect_round env p (st, log) = ((s1, log @ [GetBlockPending, TxpoolInspect]), None)"
    by blast
  from Suc[of s1 "log @ [GetBlockPending, TxpoolInspect]"] r show ?case by simp
qed

lemma count_status: "length (filter ((=) TxpoolStatus) (replicate k TxpoolStatus)) = k"
  by (induction k) simp_all

lemma count_inspect:
  "length (filter ((=) TxpoolInspect) (concat (replicate k [GetBlockPending, TxpoolInspect]))) = k"
  by (induction k) simp_all

text \<open>
  Claim C8, as amended.  When the settings of the pause are in range, so that no pause
  raises, the first loop completes and makes exactly \<open>max 1 S\<close> status polls.  When in
  addition no \<^verbatim>\<open>txpool_inspect\<close> result is a non-empty value other than a dict, the second
  loop completes and makes exactly \<open>max 1 H\<close> inspect polls.  This holds whether the
  calls fail or not.
\<close>

theorem poll_counts:
  assumes "sleeps_ok p"
  shows "\<exists>mp mq log0.
           sample_status env p samples [] = ((mp, mq, log0), None) \<and>
           length (filter ((=) TxpoolStatus) log0) = nat (max 1 samples) \<and>
           (inspect_answers_ok env \<longrightarrow>
              (\<exists>st log'. collate env p inspect_hits log0 = ((st, log'), None) \<and>
                 length (filter ((=) TxpoolInspect) log') = nat (max 1 inspect_hits) \<and>
                 length (filter ((=) TxpoolStatus) log') = nat (max 1 samples)))"
proof -
  let ?first = "replicate (nat (max 1 samples)) TxpoolStatus"
  from status_rounds_ok[OF assms, where k="nat (max 1 samples)" and env=env
                          and mp=0 and mq=0 and log="[]"] obtain mp mq
    where s: "sample_status env p samples [] = ((mp, mq, ?first), None)"
    by (auto simp: sample_status_def)
  have a: "length (filter ((=) TxpoolStatus) ?first) = nat (max 1 samples)"
    by (simp only: count_status)
  have b: "\<exists>st log'. collate env p inspect_hits ?first = ((st, log'), None) \<and>
         length (filter ((=) TxpoolInspect) log') = nat (max 1 inspect_hits) \<and>
         length (filter ((=) TxpoolStatus) log') = nat (max 1 samples)"
    if ok: "inspect_answers_ok env"
  proof -
    let ?both = "?first @ concat (replicate (nat (max 1 inspect_hits)) [GetBlockPending, TxpoolInspect])"
    from inspect_rounds_ok[OF assms ok, where k="nat (max 1 inspect_hits)"
                             and st=init_agg_state and log="?first"]
    obtain st where c: "collate env p inspect_hits ?first = ((st, ?both), None)"
      unfolding collate_def by blast
    have n1: "filter ((=) TxpoolInspect) (replicate (nat (max 1 samples)) TxpoolStatus) = []"
      by (simp add: filter_empty_conv)
    have n2: "filter ((=) TxpoolStatus) (concat (replicate k [GetBlockPending, TxpoolInspect])) = []" for k
      by (induction k) simp_all
    have "length (filter ((=) TxpoolInspect) ?both) = nat (max 1 inspect_hits)"
      by (simp only: filter_append n1 count_inspect append_Nil)
    moreover have "length (filter ((=) TxpoolStatus) ?both) = nat (max 1 samples)"
      by (simp only: filter_append n2 count_status append_Nil2)
    ultimately show ?thesis using c by blast
  qed
  from s a b show ?thesis by blast
qed

lemma env_pool_ok: "inspect_answers_ok env_pool"
  by (auto simp: inspect_answers_ok_def env_pool_def or_empty_def one_queued_def split: if_splits)

theorem poll_counts_witness:
  "sleeps_ok probe_defaults \<and> inspect_answers_ok env_pool \<and>
   (\<exists>mp mq log0.
       sample_status env_pool probe_defaults 1 [] = ((mp, mq, log0), None) \<and>
       length (filter ((=) TxpoolStatus) log0) = 1 \<and>
       (\<exists>st log'. collate env_pool probe_defaults 2 log0 = ((st, log'), None) \<and>
          length (filter ((=) TxpoolInspect) log') = 2 \<and>
          length (filter ((=) TxpoolStatus) log') = 1))"
proof -
  have sl: "sleeps_ok probe_defaults" by (simp add: sleeps_ok_def probe_defaults_def)
  have ok: "inspect_answers_ok env_pool"
    by (auto simp: inspect_answers_ok_def env_pool_def or_empty_def one_queued_def split: if_splits)
  from poll_counts[OF sl, of env_pool 1 2] ok
  have "\<exists>mp mq log0.
       sample_status env_pool probe_defaults 1 [] = ((mp, mq, log0), None) \<and>
       length (filter ((=) TxpoolStatus) log0) = 1 \<and>
       (\<exists>st log'. collate env_pool probe_defaults 2 log0 = ((st, log'), None) \<and>
          length (filter ((=) TxpoolInspect) log') = 2 \<and>
          length (filter ((=) TxpoolStatus) log') = 1)"
    by simp
  with sl ok show ?thesis by blast
qed

text \<open>
  Claim C8 as stated fails for budgets below 1: with both budgets 0 (and the default
  pauses) there is one status poll and one inspect poll.
\<close>

theorem zero_budget_still_polls_once:
  "(snd (snd (fst (sample_status env_down probe_defaults 0 []))),
    snd (sample_status env_down probe_defaults 0 [])) = ([TxpoolStatus], None) \<and>
   (snd (fst (collate env_down probe_defaults 0 [])),
    snd (collate env_down probe_defaults 0 [])) = ([GetBlockPending, TxpoolInspect], None)"
  by code_simp

text \<open>
  What the amended claim leaves out.  A result that is a non-empty string ends the run
  in the first round of the second loop; a negative jitter ends it in the pause after
  the first status poll.
\<close>

lemma inspect_result_not_dict_aborts:
  "(snd (fst (collate (\<lambda>k req. Inr (JStr ''busy'')) probe_defaults 3 [])),
    snd (collate (\<lambda>k req. Inr (JStr ''busy'')) probe_defaults 3 []))
     = ([GetBlockPending, TxpoolInspect], Some AttributeError)"
  by code_simp

lemma negative_jitter_ends_sampling:
  "(snd (snd (fst (sample_status env_down negative_jitter 30 []))),
    snd (sample_status env_down negative_jitter 30 [])) = ([TxpoolStatus], Some ValueError)"
  by code_simp

section \<open>Properties of ingestion in classify mode\<close>

text \<open>The loops of \<^const>\<open>ingest\<close> in closed form.\<close>

lemma fold_insert_nonces:
  "fold (\<lambda>kv acc. case probe_nonce (fst kv) of None \<Rightarrow> acc | Some n \<Rightarrow> insert n acc) m s
     = s \<union> nonces_of m"
  by (induction m arbitrary: s) (auto simp: nonces_of_def split: option.splits)

lemma harvest_sender_eq:
  "harvest_sender sender pn =
     pn(lower (fst sender) \<mapsto> pending_for pn (lower (fst sender)) \<union> sender_nonces sender)"
  by (simp add: harvest_sender_def Let_def sender_nonces_def fold_insert_nonces split: json.splits)

lemma fold_harvest:
  "fold harvest_sender senders pn a =
     (if a \<in> (\<lambda>s. lower (fst s)) ` set senders
      then Some (pending_for pn a \<union> (\<Union>s \<in> {s \<in> set senders. lower (fst s) = a}. sender_nonces s))
      else pn a)"
proof (induction senders arbitrary: pn)
  case Nil
  then show ?case by simp
next
  case (Cons x xs)
  let ?pn' = "harvest_sender x pn"
  have pf: "pending_for ?pn' a =
      (if lower (fst x) = a then pending_for pn a \<union> sender_nonces x else pending_for pn a)"
    by (auto simp: harvest_sender_eq pending_for_def)
  have v: "?pn' a = (if lower (fst x) = a then Some (pending_for pn a \<union> sender_nonces x) else pn a)"
    by (auto simp: harvest_sender_eq)
  have e: "{s \<in> set xs. lower (fst s) = a} = {}" if "a \<notin> (\<lambda>s. lower (fst s)) ` set xs"
    using that by force
  show ?case
  proof (cases "lower (fst x) = a")
    case True
    then have "{s \<in> set (x # xs). lower (fst s) = a} = insert x {s \<in> set xs. lower (fst s) = a}"
      by auto
    with True show ?thesis
      unfolding fold_simps Cons.IH[of ?pn'] pf v by (auto simp: Un_assoc e)
  next
    case False
    then have "{s \<in> set (x # xs). lower (fst s) = a} = {s \<in> set xs. lower (fst s) = a}"
      by auto
    with False show ?thesis
      unfolding fold_simps Cons.IH[of ?pn'] pf v by auto
  qed
qed

lemma pending_ingest:
  "pending_nonces (ingest insp st) = fold harvest_sender (section_of ''pending'' insp) (pending_nonces st)"
  by (simp add: ingest_def section_of_def Let_def split: json.splits)

lemma queued_ingest:
  "queued_entries (ingest insp st) = fold collect_sender (section_of ''queued'' insp) (queued_entries st)"
  by (simp add: ingest_def section_of_def Let_def split: json.splits)

lemma pending_ingest_at:
  "pending_nonces (ingest insp st) a =
     (if a \<in> snapshot_senders insp
      then Some (pending_for (pending_nonces st) a \<union> snapshot_nonces insp a)
      else pending_nonces st a)"
  by (simp add: pending_ingest fold_harvest snapshot_senders_def snapshot_nonces_def)

lemma snapshot_nonces_empty: "a \<notin> snapshot_senders insp \<Longrightarrow> snapshot_nonces insp a = {}"
  by (force simp: snapshot_senders_def snapshot_nonces_def)

lemma pending_fold_ingest:
  "pending_nonces (fold ingest xs st) a =
     (if \<exists>s \<in> set xs. a \<in> snapshot_senders s
      then Some (pending_for (pending_nonces st) a \<union> (\<Union>s \<in> set xs. snapshot_nonces s a))
      else pending_nonces st a)"
proof (induction xs arbitrary: st)
  case Nil
  then show ?case by simp
next
  case (Cons x xs)
  have pf: "pending_for (pending_nonces (ingest x st)) a =
              pending_for (pending_nonces st) a \<union> snapshot_nonces x a"
    by (simp add: pending_for_def pending_ingest_at snapshot_nonces_empty)
  show ?case
    unfolding fold_simps Cons.IH[of "ingest x st"] pf
    by (auto simp: pending_ingest_at snapshot_nonces_empty)
qed

lemma fold_append_entries:
  "set (fold (\<lambda>kv acc. case probe_nonce (fst kv) of
                          None \<Rightarrow> acc
                        | Some n \<Rightarrow> acc @ [(a, n, py_str (snd kv))]) m qe)
     = set qe \<union> (\<Union>kv \<in> set m. case probe_nonce (fst kv) of
                                       None \<Rightarrow> {}
                                     | Some n \<Rightarrow> {(a, n, py_str (snd kv))})"
  by (induction m arbitrary: qe) (auto split: option.splits)

lemma collect_sender_set:
  "set (collect_sender sender qe) = set qe \<union> sender_entries sender"
  by (simp add: collect_sender_def Let_def sender_entries_def fold_append_entries split: json.splits)

lemma fold_collect_set:
  "set (fold collect_sender senders qe) = set qe \<union> (\<Union>s \<in> set senders. sender_entries s)"
  by (induction senders arbitrary: qe) (auto simp: collect_sender_set)

lemma queued_fold_ingest:
  "unique_queued (fold ingest xs st) = unique_queued st \<union> (\<Union>s \<in> set xs. snapshot_entries s)"
proof (induction xs arbitrary: st)
  case Nil
  then show ?case by simp
next
  case (Cons x xs)
  have "unique_queued (ingest x st) = unique_queued st \<union> snapshot_entries x"
    by (simp add: unique_queued_def queued_ingest fold_collect_set snapshot_entries_def)
  then show ?case unfolding fold_simps Cons.IH[of "ingest x st"] by auto
qed

text \<open>
  The state the second loop ends with is the result of reading, one after the other,
  snapshots that its rounds received.
\<close>

lemma inspect_round_ingests:
  assumes "inspect_round env p (st, log) = ((st', log'), e)"
  shows "st' = st \<or> (\<exists>d i r. env i TxpoolInspect = Inr r \<and> or_empty r = JObj d \<and> st' = ingest d st)"
proof -
  obtain b l1 where g: "get_pending_basefee_wei env log = (b, l1)"
    by (cases "get_pending_basefee_wei env log")
  show ?thesis
  proof (cases "env (length l1) TxpoolInspect")
    case (Inl x)
    with assms g show ?thesis by (simp add: inspect_round_def rpc_call_def)
  next
    case (Inr r)
    with assms g show ?thesis
      by (cases "or_empty r") (auto simp: inspect_round_def rpc_call_def)
  qed
qed

lemma collate_is_fold:
  assumes "rounds k (inspect_round env p) (st, log) = ((st', log'), e)"
  shows "\<exists>xs. st' = fold ingest xs st \<and>
              (\<forall>d \<in> set xs. \<exists>i r. env i TxpoolInspect = Inr r \<and> or_empty r = JObj d)"
  using assms
proof (induction k arbitrary: st log)
  case 0
  then have "st' = fold ingest [] st" by simp
  then show ?case by (intro exI[of _ "[]"]) simp
next
  case (Suc k)
  obtain s1 l1 e1 where r: "inspect_round env p (st, log) = ((s1, l1), e1)"
    by (cases "inspect_round env p (st, log)") auto
  have "\<exists>xs. st' = fold ingest xs s1 \<and>
              (\<forall>d \<in> set xs. \<exists>i r. env i TxpoolInspect = Inr r \<and> or_empty r = JObj d)"
  proof (cases e1)
    case None
    with Suc.prems r have "rounds k (inspect_round env p) (s1, l1) = ((st', log'), e)" by simp
    then show ?thesis by (rule Suc.IH)
  next
    case (Some x)
    with Suc.prems r have "st' = fold ingest [] s1" by simp
    then show ?thesis by (intro exI[of _ "[]"]) simp
  qed
  then obtain xs where xs: "st' = fold ingest xs s1"
    and ok: "\<forall>d \<in> set xs. \<exists>i r. env i TxpoolInspect = Inr r \<and> or_empty r = JObj d" by blast
  from inspect_round_ingests[OF r] show ?case
  proof
    assume "s1 = st"
    with xs ok show ?thesis by blast
  next
    assume "\<exists>d i r. env i TxpoolInspect = Inr r \<and> or_empty r = JObj d \<and> s1 = ingest d st"
    then obtain d i r where d: "env i TxpoolInspect = Inr r" "or_empty r = JObj d" "s1 = ingest d st"
      by blast
    with xs have "st' = fold ingest (d # xs) st" by simp
    moreover from d ok have "\<forall>x \<in> set (d # xs). \<exists>i r. env i TxpoolInspect = Inr r \<and> or_empty r = JObj x"
      by auto
    ultimately show ?thesis by blast
  qed
qed

text \<open>
  Claim C1, as amended.  In classify mode the result of reading a sequence of snapshots
  depends only on which snapshots occur in it: two sequences with the same snapshots, in
  any order and with any repetitions, leave the same \<^verbatim>\<open>pending_nonces\<close> and the same
  deduplicated set of queued entries.
\<close>

theorem ingest_order_independent:
  assumes "set xs = set ys"
  shows "pending_nonces (fold ingest xs st) = pending_nonces (fold ingest ys st) \<and>
         unique_queued (fold ingest xs st) = unique_queued (fold ingest ys st)"
proof
  show "pending_nonces (fold ingest xs st) = pending_nonces (fold ingest ys st)"
    by (rule ext) (simp only: pending_fold_ingest assms)
  show "unique_queued (fold ingest xs st) = unique_queued (fold ingest ys st)"
    by (simp only: queued_fold_ingest assms)
qed

theorem ingest_order_independent_witness:
  "set [pool_view_1, pool_view_2, pool_view_1] = set [pool_view_2, pool_view_1] \<and>
   pending_nonces (fold ingest [pool_view_1, pool_view_2, pool_view_1] init_agg_state) =
     pending_nonces (fold ingest [pool_view_2, pool_view_1] init_agg_state) \<and>
   unique_queued (fold ingest [pool_view_1, pool_view_2, pool_view_1] init_agg_state) =
     unique_queued (fold ingest [pool_view_2, pool_view_1] init_agg_state) \<and>
   pending_nonces (fold ingest [pool_view_2, pool_view_1] init_agg_state) ''0xa1'' = Some {3, 4} \<and>
   unique_queued (fold ingest [pool_view_2, pool_view_1] init_agg_state) =
     {(''0xa1'', 5, ''feeCap: 10''), (''0xb2'', 1, ''gasPrice: 1'')}"
proof -
  have a: "set [pool_view_1, pool_view_2, pool_view_1] = set [pool_view_2, pool_view_1]"
    by auto
  note t = ingest_order_independent[OF a, of init_agg_state]
  have b: "pending_nonces (fold ingest [pool_view_2, pool_view_1] init_agg_state) ''0xa1'' = Some {3, 4}"
    by code_simp
  have c: "unique_queued (fold ingest [pool_view_2, pool_view_1] init_agg_state) =
     {(''0xa1'', 5, ''feeCap: 10''), (''0xb2'', 1, ''gasPrice: 1'')}"
    by code_simp
  from a t b c show ?thesis by blast
qed

text \<open>
  In classify mode an entry whose nonce cannot be read is passed over and the entries
  around it are read as if it were not there (the behaviour claim C7 describes).
\<close>

lemma collect_sender_skips_malformed:
  assumes "probe_nonce k = None"
  shows "collect_sender (a, JObj (m1 @ (k, v) # m2)) qe = collect_sender (a, JObj (m1 @ m2)) qe"
  using assms by (simp add: collect_sender_def Let_def)

lemma harvest_sender_skips_malformed:
  assumes "probe_nonce k = None"
  shows "harvest_sender (a, JObj (m1 @ (k, v) # m2)) pn = harvest_sender (a, JObj (m1 @ m2)) pn"
  using assms by (simp add: harvest_sender_def Let_def)

end
